theory Spec2Isabelle
  imports Complex_Main "HOL-Library.AList"
begin

section \<open>Python strings\<close>

text \<open>
  A Python \<open>str\<close> is a sequence of code points. The model's \<open>string\<close> is a list of
  8-bit characters, read as the code points below 256; texts with code points beyond that
  range are outside the model. \<open>is_space\<close> is \<open>str.isspace\<close> on that range (it is also
  what \<open>\s\<close> matches in a \<open>str\<close> pattern of \<open>re\<close>): tab, line feed, vertical tab, form
  feed, carriage return, the separators 0x1C to 0x1F, space, 0x85 and 0xA0.
\<close>

definition is_space :: "char \<Rightarrow> bool" where
  "is_space c = (c \<in> set [CHR 0x09, CHR 0x0A, CHR 0x0B, CHR 0x0C, CHR 0x0D, CHR 0x1C, CHR 0x1D,
                          CHR 0x1E, CHR 0x1F, CHR 0x20, CHR 0x85, CHR 0xA0])"

definition lstrip :: "string \<Rightarrow> string" where
  "lstrip s = dropWhile is_space s"

definition rstrip :: "string \<Rightarrow> string" where
  "rstrip s = rev (dropWhile is_space (rev s))"

definition strip :: "string \<Rightarrow> string" where
  "strip s = rstrip (lstrip s)"

text \<open>
  \<open>str.lower\<close> on the code points below 256: the letters A to Z and the Latin-1 capitals
  0xC0 to 0xDE (but the multiplication sign 0xD7) move up by 32, which sets bit 5; the
  length never changes on this range. \<open>starts_with\<close> is \<open>str.startswith\<close>, and
  \<open>is_digit\<close> is what \<open>\d\<close> matches on this range.
\<close>

fun lower_char :: "char \<Rightarrow> char" where
  "lower_char (Char b0 b1 b2 b3 b4 b5 b6 b7) =
     (let v = (of_bool b0 + 2 * of_bool b1 + 4 * of_bool b2 + 8 * of_bool b3 + 16 * of_bool b4 :: nat)
      in if b6 \<and> \<not> b5 \<and> ((\<not> b7 \<and> 1 \<le> v \<and> v \<le> 26) \<or> (b7 \<and> v \<le> 30 \<and> v \<noteq> 23))
         then Char b0 b1 b2 b3 b4 True b6 b7
         else Char b0 b1 b2 b3 b4 b5 b6 b7)"

definition lower :: "string \<Rightarrow> string" where
  "lower s = map lower_char s"

fun starts_with :: "string \<Rightarrow> string \<Rightarrow> bool" where
  "starts_with [] s = True"
| "starts_with (p # ps) [] = False"
| "starts_with (p # ps) (c # cs) = (p = c \<and> starts_with ps cs)"

definition is_digit :: "char \<Rightarrow> bool" where
  "is_digit c = (c \<in> set ''0123456789'')"

section \<open>The workflow scheduler (system/workflow.py)\<close>

text \<open>
  Python dictionaries with string keys whose iteration order is never observed are maps;
  \<open>Workflow.nodes\<close> is iterated, so it is an association list in insertion order, written
  with \<open>AList.update\<close> (an existing key keeps its place, a new key goes to the end, as in a
  Python dict) and read with \<open>map_of\<close>. The type \<open>'v\<close> stands for Python's \<open>Any\<close>: the
  values of the input data and of the results.
\<close>

type_synonym 'v ctx = "string \<rightharpoonup> 'v"

datatype error = ValueError string | KeyError string | AgentRaised string

record 'v WorkflowNode =
  node_id :: string
  agent_id :: string
  name :: string
  description :: string
  dependencies :: "string list"
  condition :: "('v ctx \<Rightarrow> bool) option"
  transform_input :: "('v ctx \<Rightarrow> 'v ctx) option"
  transform_output :: "('v \<Rightarrow> 'v) option"

text \<open>
  An agent, as the workflow sees it: its id and its \<open>run\<close> method. \<open>run\<close> reads and changes
  state outside the workflow (the model gateway, the agent's own state), the world \<open>'w\<close>,
  and may raise (\<open>Inl\<close> with the message).
\<close>

record ('v, 'w) agent =
  agent_ident :: string
  run :: "string \<Rightarrow> 'v ctx \<Rightarrow> 'w \<Rightarrow> (string + 'v) \<times> 'w"

record ('v, 'w) Workflow =
  wf_id :: string
  wf_name :: string
  wf_description :: string
  nodes :: "(string \<times> 'v WorkflowNode) list"
  agents :: "string \<rightharpoonup> ('v, 'w) agent"

text \<open>\<open>Workflow.__init__\<close>; the uuid4 string is drawn by the caller of the model.\<close>

definition Workflow_init :: "string \<Rightarrow> string \<Rightarrow> string \<Rightarrow> ('v, 'w) Workflow" where
  "Workflow_init uuid nm descr =
     \<lparr>wf_id = uuid, wf_name = nm, wf_description = descr, nodes = [], agents = Map.empty\<rparr>"

definition add_agent :: "('v, 'w) Workflow \<Rightarrow> ('v, 'w) agent \<Rightarrow> string \<times> ('v, 'w) Workflow" where
  "add_agent flow ag = (agent_ident ag, flow\<lparr>agents := (agents flow)(agent_ident ag \<mapsto> ag)\<rparr>)"

text \<open>
  \<open>Workflow.add_node\<close>. The node's id is \<open>str(uuid.uuid4())\<close>, drawn when the node is
  built: the model takes it as the argument \<open>uuid\<close>. \<open>dependencies or []\<close> turns the
  default \<open>None\<close> into the empty list.
\<close>

definition add_node ::
  "('v, 'w) Workflow \<Rightarrow> string \<Rightarrow> ('v, 'w) agent \<Rightarrow> string \<Rightarrow> string \<Rightarrow> string list option \<Rightarrow>
   ('v ctx \<Rightarrow> bool) option \<Rightarrow> ('v ctx \<Rightarrow> 'v ctx) option \<Rightarrow> ('v \<Rightarrow> 'v) option \<Rightarrow>
   string \<times> ('v, 'w) Workflow" where
  "add_node flow uuid ag nm descr deps cond tin tout =
     (let flow1 = (if agent_ident ag \<notin> dom (agents flow) then snd (add_agent flow ag) else flow);
          node = \<lparr>node_id = uuid, agent_id = agent_ident ag, name = nm, description = descr,
                  dependencies = (case deps of None \<Rightarrow> [] | Some ds \<Rightarrow> ds),
                  condition = cond, transform_input = tin, transform_output = tout\<rparr>
      in (node_id node, flow1\<lparr>nodes := AList.update (node_id node) node (nodes flow1)\<rparr>))"

text \<open>
  The id of a node is \<open>str(uuid.uuid4())\<close>, drawn by the default factory of
  \<open>WorkflowNode.id\<close> when \<open>add_node\<close> builds the node. The draw reads a source outside
  the program; the model has it as a state: the sequence of the ids the source gives, and
  the number of ids it has given so far. \<open>uuid4\<close> gives the next id and advances the
  source, and \<open>add_node_uuid4\<close> is \<open>add_node\<close> with its id drawn this way. That no UUID
  is given twice is the contract of the library and not a property of this code: it is
  the hypothesis \<open>inj (draws src)\<close> wherever the freshness of an id is stated.
\<close>

record id_source =
  draws :: "nat \<Rightarrow> string"
  drawn :: nat

definition uuid4 :: "id_source \<Rightarrow> string \<times> id_source" where
  "uuid4 src = (draws src (drawn src), src\<lparr>drawn := Suc (drawn src)\<rparr>)"

definition add_node_uuid4 ::
  "('v, 'w) Workflow \<Rightarrow> id_source \<Rightarrow> ('v, 'w) agent \<Rightarrow> string \<Rightarrow> string \<Rightarrow> string list option \<Rightarrow>
   ('v ctx \<Rightarrow> bool) option \<Rightarrow> ('v ctx \<Rightarrow> 'v ctx) option \<Rightarrow> ('v \<Rightarrow> 'v) option \<Rightarrow>
   string \<times> ('v, 'w) Workflow \<times> id_source" where
  "add_node_uuid4 flow src ag nm descr deps cond tin tout =
     (let (uuid, src') = uuid4 src;
          (nid, flow') = add_node flow uuid ag nm descr deps cond tin tout
      in (nid, flow', src'))"

subsection \<open>Validation\<close>

text \<open>The first loop of \<open>_validate\<close>: every node's agent is registered.\<close>

fun check_agents :: "(string \<rightharpoonup> ('v, 'w) agent) \<Rightarrow> 'v WorkflowNode list \<Rightarrow> error + unit" where
  "check_agents ags [] = Inr ()"
| "check_agents ags (nd # nds) =
     (if agent_id nd \<notin> dom ags
      then Inl (ValueError (''Node '' @ name nd @ '' references non-existent agent '' @ agent_id nd))
      else check_agents ags nds)"

text \<open>The second loop: every dependency id is a key of \<open>nodes\<close>.\<close>

fun check_node_deps :: "(string \<times> 'v WorkflowNode) list \<Rightarrow> 'v WorkflowNode \<Rightarrow> string list \<Rightarrow> error + unit" where
  "check_node_deps ns nd [] = Inr ()"
| "check_node_deps ns nd (d # ds) =
     (if map_of ns d = None
      then Inl (ValueError (''Node '' @ name nd @ '' depends on non-existent node '' @ d))
      else check_node_deps ns nd ds)"

fun check_deps :: "(string \<times> 'v WorkflowNode) list \<Rightarrow> 'v WorkflowNode list \<Rightarrow> error + unit" where
  "check_deps ns [] = Inr ()"
| "check_deps ns (nd # nds) =
     (case check_node_deps ns nd (dependencies nd) of
        Inl e \<Rightarrow> Inl e
      | Inr u \<Rightarrow> check_deps ns nds)"

text \<open>
  The closure \<open>has_cycle\<close> of \<open>_validate\<close>, with its \<open>for\<close> loop over the dependencies as
  \<open>has_cycle_deps\<close>. The set \<open>visited\<close> is threaded through. The set \<open>temp\<close> is an argument:
  the source adds \<open>node_id\<close> before the loop and removes it after, so a call that returns
  \<open>False\<close> leaves \<open>temp\<close> as it found it, and a call that returns \<open>True\<close> makes every
  caller return \<open>True\<close> at once and \<open>_validate\<close> raise, so \<open>temp\<close> is never read again.
  \<open>self.nodes[node_id]\<close> raises KeyError on a missing key.
\<close>

function has_cycle ::
    "(string \<times> 'v WorkflowNode) list \<Rightarrow> string set \<Rightarrow> string \<Rightarrow> string set \<Rightarrow> error + (bool \<times> string set)"
  and has_cycle_deps ::
    "(string \<times> 'v WorkflowNode) list \<Rightarrow> string set \<Rightarrow> string list \<Rightarrow> string set \<Rightarrow> error + (bool \<times> string set)"
where
  "has_cycle ns temp n visited =
     (if n \<in> temp then Inr (True, visited)
      else if n \<in> visited then Inr (False, visited)
      else (case map_of ns n of
              None \<Rightarrow> Inl (KeyError n)
            | Some nd \<Rightarrow>
                (case has_cycle_deps ns (insert n temp) (dependencies nd) visited of
                   Inl e \<Rightarrow> Inl e
                 | Inr (True, visited') \<Rightarrow> Inr (True, visited')
                 | Inr (False, visited') \<Rightarrow> Inr (False, insert n visited'))))"
| "has_cycle_deps ns temp [] visited = Inr (False, visited)"
| "has_cycle_deps ns temp (d # ds) visited =
     (case has_cycle ns temp d visited of
        Inl e \<Rightarrow> Inl e
      | Inr (True, visited') \<Rightarrow> Inr (True, visited')
      | Inr (False, visited') \<Rightarrow> has_cycle_deps ns temp ds visited')"
  by pat_completeness auto

lemma card_keys_less:
  assumes "map_of ns n = Some nd" and "n \<notin> temp"
  shows "card (fst ` set ns - insert n temp) < card (fst ` set ns - temp)"
proof -
  have "n \<in> fst ` set ns"
    using assms(1) by (metis map_of_eq_None_iff option.distinct(1))
  then have "fst ` set ns - insert n temp \<subset> fst ` set ns - temp"
    using assms(2) by auto
  then show ?thesis by (simp add: psubset_card_mono)
qed

termination has_cycle
  by (relation "measures
        [\<lambda>x. case x of Inl (ns, temp, n, v) \<Rightarrow> card (fst ` set ns - temp)
                      | Inr (ns, temp, ds, v) \<Rightarrow> card (fst ` set ns - temp),
         \<lambda>x. case x of Inl (ns, temp, n, v) \<Rightarrow> 0
                      | Inr (ns, temp, ds, v) \<Rightarrow> Suc (length ds)]")
     (auto simp: card_keys_less)

text \<open>The third loop of \<open>_validate\<close>: \<open>for node_id in self.nodes: if has_cycle(node_id): raise\<close>.\<close>

fun check_cycles :: "(string \<times> 'v WorkflowNode) list \<Rightarrow> string list \<Rightarrow> string set \<Rightarrow> error + unit" where
  "check_cycles ns [] visited = Inr ()"
| "check_cycles ns (k # ks) visited =
     (case has_cycle ns {} k visited of
        Inl e \<Rightarrow> Inl e
      | Inr (True, visited') \<Rightarrow> Inl (ValueError ''Circular dependency detected in workflow'')
      | Inr (False, visited') \<Rightarrow> check_cycles ns ks visited')"

definition validate :: "('v, 'w) Workflow \<Rightarrow> error + unit" where
  "validate flow =
     (case check_agents (agents flow) (map snd (nodes flow)) of
        Inl e \<Rightarrow> Inl e
      | Inr u \<Rightarrow>
          (case check_deps (nodes flow) (map snd (nodes flow)) of
             Inl e \<Rightarrow> Inl e
           | Inr u \<Rightarrow> check_cycles (nodes flow) (map fst (nodes flow)) {}))"

subsection \<open>The execution order\<close>

text \<open>
  The closure \<open>visit\<close> of \<open>_get_execution_order\<close> and its loop over the dependencies.
  The state is the pair of \<open>visited\<close> and \<open>result\<close>; \<open>temp\<close> is an argument for the reason
  given at \<open>has_cycle\<close> (here a hit in \<open>temp\<close> raises).
\<close>

function visit ::
    "(string \<times> 'v WorkflowNode) list \<Rightarrow> string set \<Rightarrow> string \<Rightarrow> string set \<times> string list \<Rightarrow>
     error + (string set \<times> string list)"
  and visit_deps ::
    "(string \<times> 'v WorkflowNode) list \<Rightarrow> string set \<Rightarrow> string list \<Rightarrow> string set \<times> string list \<Rightarrow>
     error + (string set \<times> string list)"
where
  "visit ns temp n st =
     (if n \<in> temp then Inl (ValueError ''Circular dependency detected'')
      else if n \<in> fst st then Inr st
      else (case map_of ns n of
              None \<Rightarrow> Inl (KeyError n)
            | Some nd \<Rightarrow>
                (case visit_deps ns (insert n temp) (dependencies nd) st of
                   Inl e \<Rightarrow> Inl e
                 | Inr st' \<Rightarrow> Inr (insert n (fst st'), snd st' @ [n]))))"
| "visit_deps ns temp [] st = Inr st"
| "visit_deps ns temp (d # ds) st =
     (case visit ns temp d st of
        Inl e \<Rightarrow> Inl e
      | Inr st' \<Rightarrow> visit_deps ns temp ds st')"
  by pat_completeness auto

termination
  by (relation "measures
        [\<lambda>x. case x of Inl (ns, temp, n, v) \<Rightarrow> card (fst ` set ns - temp)
                      | Inr (ns, temp, ds, v) \<Rightarrow> card (fst ` set ns - temp),
         \<lambda>x. case x of Inl (ns, temp, n, v) \<Rightarrow> 0
                      | Inr (ns, temp, ds, v) \<Rightarrow> Suc (length ds)]")
     (auto simp: card_keys_less)

text \<open>\<open>for node_id in self.nodes: if node_id not in visited: visit(node_id)\<close>.\<close>

fun visit_all ::
  "(string \<times> 'v WorkflowNode) list \<Rightarrow> string list \<Rightarrow> string set \<times> string list \<Rightarrow>
   error + (string set \<times> string list)" where
  "visit_all ns [] st = Inr st"
| "visit_all ns (k # ks) st =
     (if k \<notin> fst st
      then (case visit ns {} k st of Inl e \<Rightarrow> Inl e | Inr st' \<Rightarrow> visit_all ns ks st')
      else visit_all ns ks st)"

definition get_execution_order :: "('v, 'w) Workflow \<Rightarrow> error + string list" where
  "get_execution_order flow =
     (case visit_all (nodes flow) (map fst (nodes flow)) ({}, []) of
        Inl e \<Rightarrow> Inl e
      | Inr st \<Rightarrow> Inr (snd st))"

subsection \<open>Execution\<close>

text \<open>
  The loop that collects a node's input: \<open>node_input[self.nodes[dep_id].name] = results[dep_id]\<close>
  for every dependency that has a result.
\<close>

fun collect_inputs ::
  "(string \<times> 'v WorkflowNode) list \<Rightarrow> 'v ctx \<Rightarrow> string list \<Rightarrow> 'v ctx \<Rightarrow> error + 'v ctx" where
  "collect_inputs ns node_input [] results = Inr node_input"
| "collect_inputs ns node_input (d # ds) results =
     (case results d of
        None \<Rightarrow> collect_inputs ns node_input ds results
      | Some r \<Rightarrow>
          (case map_of ns d of
             None \<Rightarrow> Inl (KeyError d)
           | Some dn \<Rightarrow> collect_inputs ns (node_input(name dn \<mapsto> r)) ds results))"

text \<open>
  One turn of the loop of \<open>execute\<close>, for the node id \<open>k\<close>. The state is the results
  mapping, the world the agents act on, and the trace of the calls of \<open>agent.run\<close> made so
  far (node id, task description, node input): the trace is not in the source, it records
  which units of work were invoked. Guards and transforms are taken as functions that
  return; a raise of \<open>agent.run\<close> ends the execution.
\<close>

type_synonym 'v call = "string \<times> string \<times> 'v ctx"

definition run_node ::
  "('v, 'w) Workflow \<Rightarrow> 'v ctx \<Rightarrow> string \<Rightarrow> 'v ctx \<Rightarrow> 'w \<Rightarrow> 'v call list \<Rightarrow>
   (error + 'v ctx) \<times> 'w \<times> 'v call list" where
  "run_node flow input_data k results w tr =
     (case map_of (nodes flow) k of
        None \<Rightarrow> (Inl (KeyError k), w, tr)
      | Some nd \<Rightarrow>
          if (case condition nd of None \<Rightarrow> False | Some c \<Rightarrow> \<not> c (input_data ++ results))
          then (Inr results, w, tr)
          else (case collect_inputs (nodes flow) input_data (dependencies nd) results of
                  Inl e \<Rightarrow> (Inl e, w, tr)
                | Inr ni \<Rightarrow>
                    (let node_input = (case transform_input nd of None \<Rightarrow> ni | Some f \<Rightarrow> f ni)
                     in case agents flow (agent_id nd) of
                          None \<Rightarrow> (Inl (KeyError (agent_id nd)), w, tr)
                        | Some ag \<Rightarrow>
                            (let td = name nd @ '': '' @ description nd;
                                 task_description =
                                   (if strip td = [] then ''Execute task for node '' @ name nd else td)
                             in case run ag task_description node_input w of
                                  (Inl msg, w') \<Rightarrow>
                                    (Inl (AgentRaised msg), w', tr @ [(k, task_description, node_input)])
                                | (Inr r, w') \<Rightarrow>
                                    (Inr (results(k \<mapsto> (case transform_output nd of
                                                            None \<Rightarrow> r | Some g \<Rightarrow> g r))),
                                     w', tr @ [(k, task_description, node_input)])))))"

fun run_nodes ::
  "('v, 'w) Workflow \<Rightarrow> 'v ctx \<Rightarrow> string list \<Rightarrow> 'v ctx \<Rightarrow> 'w \<Rightarrow> 'v call list \<Rightarrow>
   (error + 'v ctx) \<times> 'w \<times> 'v call list" where
  "run_nodes flow input_data [] results w tr = (Inr results, w, tr)"
| "run_nodes flow input_data (k # ks) results w tr =
     (case run_node flow input_data k results w tr of
        (Inl e, w', tr') \<Rightarrow> (Inl e, w', tr')
      | (Inr results', w', tr') \<Rightarrow> run_nodes flow input_data ks results' w' tr')"

text \<open>\<open>Workflow.execute\<close>; \<open>input_data\<close> defaults to \<open>None\<close>, read as the empty dict.\<close>

definition execute ::
  "('v, 'w) Workflow \<Rightarrow> 'v ctx option \<Rightarrow> 'w \<Rightarrow> (error + 'v ctx) \<times> 'w \<times> 'v call list" where
  "execute flow input_data w =
     (let inp = (case input_data of None \<Rightarrow> Map.empty | Some d \<Rightarrow> d)
      in case validate flow of
           Inl e \<Rightarrow> (Inl e, w, [])
         | Inr u \<Rightarrow>
             (case get_execution_order flow of
                Inl e \<Rightarrow> (Inl e, w, [])
              | Inr execution_order \<Rightarrow> run_nodes flow inp execution_order Map.empty w []))"

text \<open>
  The notions the properties of the scheduler are stated with: the keys of the node
  dict, the dependency relation (\<open>a\<close> depends on \<open>b\<close>), and that no node lists a dependency
  id outside the node dict.
\<close>

definition node_ids :: "('v, 'w) Workflow \<Rightarrow> string set" where
  "node_ids flow = fst ` set (nodes flow)"

definition dep_rel :: "(string \<times> 'v WorkflowNode) list \<Rightarrow> (string \<times> string) set" where
  "dep_rel ns = {(a, b). \<exists>nd. map_of ns a = Some nd \<and> b \<in> set (dependencies nd)}"

definition deps_exist :: "(string \<times> 'v WorkflowNode) list \<Rightarrow> bool" where
  "deps_exist ns = (\<forall>nd \<in> snd ` set ns. \<forall>d \<in> set (dependencies nd). d \<in> fst ` set ns)"

text \<open>
  Every node id of the graph is one of the ids that the source has given so far. The
  empty workflow satisfies this, and \<open>add_node_uuid4\<close> keeps it.
\<close>

definition ids_drawn :: "id_source \<Rightarrow> ('v, 'w) Workflow \<Rightarrow> bool" where
  "ids_drawn src flow = (node_ids flow \<subseteq> draws src ` {..<drawn src})"

text \<open>
  The node that \<open>add_node\<close> builds, and the invariant of the depth-first traversal: the
  nodes visited are those of the result list, which has no duplicates, holds node ids
  only, and lists every node after its dependencies.
\<close>

definition new_node :: "string \<Rightarrow> ('v, 'w) agent \<Rightarrow> string \<Rightarrow> string \<Rightarrow> string list option \<Rightarrow>
   ('v ctx \<Rightarrow> bool) option \<Rightarrow> ('v ctx \<Rightarrow> 'v ctx) option \<Rightarrow> ('v \<Rightarrow> 'v) option \<Rightarrow> 'v WorkflowNode" where
  "new_node uuid ag nm descr deps cond tin tout =
     \<lparr>node_id = uuid, agent_id = agent_ident ag, name = nm, description = descr,
      dependencies = (case deps of None \<Rightarrow> [] | Some ds \<Rightarrow> ds),
      condition = cond, transform_input = tin, transform_output = tout\<rparr>"

fun topo_from :: "(string \<times> 'v WorkflowNode) list \<Rightarrow> string list \<Rightarrow> string list \<Rightarrow> bool" where
  "topo_from ns seen [] = True"
| "topo_from ns seen (x # xs) =
     ((case map_of ns x of None \<Rightarrow> True | Some nd \<Rightarrow> set (dependencies nd) \<subseteq> set seen)
      \<and> topo_from ns (seen @ [x]) xs)"

definition dfs_inv :: "(string \<times> 'v WorkflowNode) list \<Rightarrow> string set \<times> string list \<Rightarrow> bool" where
  "dfs_inv ns st = (fst st = set (snd st) \<and> distinct (snd st) \<and> topo_from ns [] (snd st)
                    \<and> set (snd st) \<subseteq> fst ` set ns)"

fun same_outcome :: "error + (bool \<times> string set) \<Rightarrow> error + (string set \<times> string list) \<Rightarrow> bool" where
  "same_outcome hc (Inr st') = (hc = Inr (False, fst st'))"
| "same_outcome hc (Inl (ValueError m)) = (\<exists>v. hc = Inr (True, v))"
| "same_outcome hc (Inl e) = (hc = Inl e)"

subsection \<open>Example workflows\<close>

text \<open>
  An agent whose world is a call counter, and workflows built with \<open>add_node\<close>: two
  nodes that depend on each other, a node with a dependency id that names no node, the
  nodes A, B after A, C after A and B, and a guarded node with a dependent.
\<close>

definition counting_agent :: "string \<Rightarrow> (string, nat) agent" where
  "counting_agent aid = \<lparr>agent_ident = aid, run = (\<lambda>task c n. (Inr (''done: '' @ task), Suc n))\<rparr>"

definition empty_flow :: "(string, nat) Workflow" where
  "empty_flow = Workflow_init ''w0'' ''demo'' ''''"

definition cyclic_flow :: "(string, nat) Workflow" where
  "cyclic_flow =
     snd (add_node
       (snd (add_node empty_flow ''a'' (counting_agent ''ag'') ''A'' '''' (Some [''b'']) None None None))
       ''b'' (counting_agent ''ag'') ''B'' '''' (Some [''a'']) None None None)"

definition dangling_flow :: "(string, nat) Workflow" where
  "dangling_flow =
     snd (add_node empty_flow ''a'' (counting_agent ''ag'') ''A'' '''' (Some [''missing'']) None None None)"

definition abc_flow :: "(string, nat) Workflow" where
  "abc_flow =
     snd (add_node
       (snd (add_node
          (snd (add_node empty_flow ''a'' (counting_agent ''ag'') ''A'' '''' None None None None))
          ''b'' (counting_agent ''ag'') ''B'' '''' (Some [''a'']) None None None))
       ''c'' (counting_agent ''ag'') ''C'' '''' (Some [''a'', ''b'']) None None None)"

definition guard_flow :: "(string, nat) Workflow" where
  "guard_flow =
     snd (add_node
       (snd (add_node empty_flow ''a'' (counting_agent ''ag'') ''A'' '''' None (Some (\<lambda>c. False)) None None))
       ''b'' (counting_agent ''ag'') ''B'' '''' (Some [''a'']) None None None)"

text \<open>
  A source of ids that gives \<open>u\<close>, \<open>uu\<close>, \<open>uuu\<close>, ..., and the workflow with one node
  whose id is drawn from it, together with the source after the draw.
\<close>

definition demo_source :: id_source where
  "demo_source = \<lparr>draws = (\<lambda>n. replicate (Suc n) CHR ''u''), drawn = 0\<rparr>"

definition drawn_flow :: "(string, nat) Workflow \<times> id_source" where
  "drawn_flow = snd (add_node_uuid4 empty_flow demo_source (counting_agent ''ag'') ''A'' '''' None None None None)"

declare visit.simps [simp del] has_cycle.simps [simp del]

subsection \<open>The traversal\<close>

lemma topo_from_snoc:
  "topo_from ns seen (xs @ [n]) =
     (topo_from ns seen xs \<and>
      (case map_of ns n of None \<Rightarrow> True | Some nd \<Rightarrow> set (dependencies nd) \<subseteq> set (seen @ xs)))"
  by (induction xs arbitrary: seen) (simp_all split: option.splits)

lemma topo_from_split:
  "topo_from ns seen (pre @ x # post) \<Longrightarrow> map_of ns x = Some nd \<Longrightarrow>
   set (dependencies nd) \<subseteq> set (seen @ pre)"
proof (induction pre arbitrary: seen)
  case Nil
  then show ?case by simp
next
  case (Cons a pre)
  show ?case using Cons.IH[of "seen @ [a]"] Cons.prems by auto
qed

lemma visit_inv:
  "visit ns temp n st = Inr st' \<Longrightarrow> dfs_inv ns st \<Longrightarrow> fst st \<inter> temp = {} \<Longrightarrow>
     dfs_inv ns st' \<and> n \<in> fst st' \<and> fst st \<subseteq> fst st' \<and> fst st' \<inter> temp = {}"
  "visit_deps ns temp ds st = Inr st' \<Longrightarrow> dfs_inv ns st \<Longrightarrow> fst st \<inter> temp = {} \<Longrightarrow>
     dfs_inv ns st' \<and> set ds \<subseteq> fst st' \<and> fst st \<subseteq> fst st' \<and> fst st' \<inter> temp = {}"
proof (induction ns temp n st and ns temp ds st arbitrary: st' and st' rule: visit_visit_deps.induct)
  case (1 ns temp n st)
  show ?case
  proof (cases "n \<in> temp \<or> n \<in> fst st")
    case True
    then show ?thesis using "1.prems" by (auto simp: visit.simps split: if_splits)
  next
    case False
    then obtain nd where nd: "map_of ns n = Some nd"
      using "1.prems"(1) by (auto simp: visit.simps split: option.splits)
    obtain st1 where st1: "visit_deps ns (insert n temp) (dependencies nd) st = Inr st1"
      and st': "st' = (insert n (fst st1), snd st1 @ [n])"
      using "1.prems"(1) False nd by (auto simp: visit.simps split: sum.splits)
    have pre: "fst st \<inter> insert n temp = {}" using False "1.prems"(3) by auto
    have ih: "dfs_inv ns st1 \<and> set (dependencies nd) \<subseteq> fst st1 \<and> fst st \<subseteq> fst st1 \<and> fst st1 \<inter> insert n temp = {}"
      using "1.IH"[OF _ _ nd st1 "1.prems"(2) pre] False by auto
    have nk: "n \<in> fst ` set ns" using nd by (metis map_of_eq_None_iff option.distinct(1))
    have nn: "n \<notin> fst st1" "n \<notin> temp" using ih False by auto
    have d1: "fst st1 = set (snd st1)" "distinct (snd st1)" "topo_from ns [] (snd st1)"
      "set (snd st1) \<subseteq> fst ` set ns"
      using ih unfolding dfs_inv_def by auto
    have "dfs_inv ns st'"
      unfolding st' dfs_inv_def using d1 nn nk nd ih by (simp add: topo_from_snoc)
    moreover have "fst st \<subseteq> fst st'" "n \<in> fst st'" using ih st' by auto
    moreover have "fst st' \<inter> temp = {}" using ih nn st' by auto
    ultimately show ?thesis by simp
  qed
next
  case (2 ns temp st)
  then show ?case by simp
next
  case (3 ns temp d ds st)
  from "3.prems"(1) obtain st1 where st1: "visit ns temp d st = Inr st1"
    and r: "visit_deps ns temp ds st1 = Inr st'"
    by (auto split: sum.splits)
  have a: "dfs_inv ns st1 \<and> d \<in> fst st1 \<and> fst st \<subseteq> fst st1 \<and> fst st1 \<inter> temp = {}"
    using "3.IH"(1)[OF st1 "3.prems"(2,3)] .
  have b: "dfs_inv ns st' \<and> set ds \<subseteq> fst st' \<and> fst st1 \<subseteq> fst st' \<and> fst st' \<inter> temp = {}"
    using "3.IH"(2)[OF st1 r] a by blast
  show ?case using a b by auto
qed

lemma visit_no_error:
  "deps_exist ns \<Longrightarrow> acyclic (dep_rel ns) \<Longrightarrow> n \<in> fst ` set ns \<Longrightarrow>
     \<forall>t \<in> temp. (t, n) \<in> (dep_rel ns)\<^sup>+ \<Longrightarrow> \<exists>st'. visit ns temp n st = Inr st'"
  "deps_exist ns \<Longrightarrow> acyclic (dep_rel ns) \<Longrightarrow> set ds \<subseteq> fst ` set ns \<Longrightarrow>
     \<forall>t \<in> temp. \<forall>d \<in> set ds. (t, d) \<in> (dep_rel ns)\<^sup>+ \<Longrightarrow> \<exists>st'. visit_deps ns temp ds st = Inr st'"
proof (induction ns temp n st and ns temp ds st rule: visit_visit_deps.induct)
  case (1 ns temp n st)
  have nt: "n \<notin> temp"
  proof
    assume "n \<in> temp"
    then have "(n, n) \<in> (dep_rel ns)\<^sup>+" using "1.prems"(4) by blast
    then show False using "1.prems"(2) by (simp add: acyclic_def)
  qed
  show ?case
  proof (cases "n \<in> fst st")
    case True
    then show ?thesis using nt by (simp add: visit.simps)
  next
    case False
    obtain nd where nd: "map_of ns n = Some nd"
      using "1.prems"(3) by (metis map_of_eq_None_iff not_Some_eq)
    have mem: "nd \<in> snd ` set ns" using nd by (metis map_of_SomeD snd_conv image_eqI)
    have sub: "set (dependencies nd) \<subseteq> fst ` set ns"
      using "1.prems"(1) mem unfolding deps_exist_def by blast
    have edge: "\<forall>d \<in> set (dependencies nd). (n, d) \<in> dep_rel ns"
      using nd unfolding dep_rel_def by auto
    have reach: "\<forall>t \<in> insert n temp. \<forall>d \<in> set (dependencies nd). (t, d) \<in> (dep_rel ns)\<^sup>+"
    proof (intro ballI)
      fix t d assume t: "t \<in> insert n temp" and d: "d \<in> set (dependencies nd)"
      show "(t, d) \<in> (dep_rel ns)\<^sup>+"
      proof (cases "t = n")
        case True
        then show ?thesis using edge d by blast
      next
        case False
        then have "(t, n) \<in> (dep_rel ns)\<^sup>+" using t "1.prems"(4) by blast
        then show ?thesis using edge d by (meson trancl.trancl_into_trancl)
      qed
    qed
    obtain st1 where "visit_deps ns (insert n temp) (dependencies nd) st = Inr st1"
      using "1.IH"[OF nt False nd "1.prems"(1,2) sub reach] by blast
    then show ?thesis using nt False nd by (simp add: visit.simps)
  qed
next
  case (2 ns temp st)
  then show ?case by simp
next
  case (3 ns temp d ds st)
  obtain st1 where st1: "visit ns temp d st = Inr st1"
    using "3.IH"(1)[OF "3.prems"(1,2)] "3.prems"(3,4) by auto
  obtain st2 where "visit_deps ns temp ds st1 = Inr st2"
    using "3.IH"(2)[OF st1 "3.prems"(1,2)] "3.prems"(3,4) by auto
  then show ?case using st1 by simp
qed

lemma visit_all_inv:
  "visit_all ns ks st = Inr st' \<Longrightarrow> dfs_inv ns st \<Longrightarrow>
   dfs_inv ns st' \<and> set ks \<subseteq> fst st' \<and> fst st \<subseteq> fst st'"
proof (induction ks arbitrary: st)
  case Nil
  then show ?case by simp
next
  case (Cons k ks)
  show ?case
  proof (cases "k \<in> fst st")
    case True
    then have "visit_all ns ks st = Inr st'" using Cons.prems(1) by simp
    from Cons.IH[OF this Cons.prems(2)] True show ?thesis by auto
  next
    case False
    then obtain st1 where st1: "visit ns {} k st = Inr st1" and r: "visit_all ns ks st1 = Inr st'"
      using Cons.prems(1) by (auto split: sum.splits)
    have a: "dfs_inv ns st1 \<and> k \<in> fst st1 \<and> fst st \<subseteq> fst st1"
      using visit_inv(1)[OF st1 Cons.prems(2)] by simp
    have b: "dfs_inv ns st' \<and> set ks \<subseteq> fst st' \<and> fst st1 \<subseteq> fst st'"
      using Cons.IH[OF r] a by blast
    show ?thesis using a b by auto
  qed
qed

lemma visit_all_no_error:
  "deps_exist ns \<Longrightarrow> acyclic (dep_rel ns) \<Longrightarrow> set ks \<subseteq> fst ` set ns \<Longrightarrow>
   \<exists>st'. visit_all ns ks st = Inr st'"
proof (induction ks arbitrary: st)
  case Nil
  then show ?case by simp
next
  case (Cons k ks)
  obtain st1 where st1: "visit ns {} k st = Inr st1"
    using visit_no_error(1)[OF Cons.prems(1,2), of k "{}" st] Cons.prems(3) by auto
  have sub: "set ks \<subseteq> fst ` set ns" using Cons.prems(3) by simp
  show ?case using Cons.IH[OF Cons.prems(1,2) sub, of st1] Cons.IH[OF Cons.prems(1,2) sub, of st] st1
    by (cases "k \<in> fst st") simp_all
qed

lemma first_index_less:
  "b \<in> set pre \<Longrightarrow> length (takeWhile (\<lambda>y. y \<noteq> b) (pre @ rest)) < length pre"
  by (induction pre) auto

lemma first_index_eq:
  "a \<notin> set pre \<Longrightarrow> takeWhile (\<lambda>y. y \<noteq> a) (pre @ a # post) = pre"
  by (induction pre) auto

lemma topo_acyclic:
  assumes t: "topo_from ns [] res" and cover: "fst ` set ns \<subseteq> set res"
  shows "acyclic (dep_rel ns)"
proof -
  define f where "f x = length (takeWhile (\<lambda>y. y \<noteq> x) res)" for x
  have "(dep_rel ns)\<inverse> \<subseteq> measure f"
  proof
    fix p assume p: "p \<in> (dep_rel ns)\<inverse>"
    obtain a b where ab: "p = (b, a)" by (cases p)
    from p ab obtain nd where nd: "map_of ns a = Some nd" and b: "b \<in> set (dependencies nd)"
      unfolding dep_rel_def by auto
    have "a \<in> set res" using nd cover by (metis map_of_eq_None_iff option.distinct(1) subsetD)
    then obtain pre post where sp: "res = pre @ a # post" and na: "a \<notin> set pre"
      by (meson split_list_first)
    have "set (dependencies nd) \<subseteq> set pre" using topo_from_split[of ns "[]" pre a post nd] t sp nd by simp
    then have bp: "b \<in> set pre" using b by blast
    have fb: "f b < length pre" unfolding f_def sp using first_index_less[OF bp] by simp
    have fa: "f a = length pre" unfolding f_def sp using first_index_eq[OF na] by simp
    show "p \<in> measure f" using ab fa fb by simp
  qed
  then have "acyclic ((dep_rel ns)\<inverse>)" by (meson wf_measure wf_acyclic acyclic_subset)
  then show ?thesis by simp
qed

lemma has_cycle_visit:
  "same_outcome (has_cycle ns temp n (fst st)) (visit ns temp n st)"
  "same_outcome (has_cycle_deps ns temp ds (fst st)) (visit_deps ns temp ds st)"
proof (induction ns temp n st and ns temp ds st rule: visit_visit_deps.induct)
  case (1 ns temp n st)
  show ?case
  proof (cases "n \<in> temp \<or> n \<in> fst st \<or> map_of ns n = None")
    case True
    then show ?thesis by (auto simp: visit.simps has_cycle.simps)
  next
    case False
    then obtain nd where nd: "map_of ns n = Some nd" by auto
    have ih: "same_outcome (has_cycle_deps ns (insert n temp) (dependencies nd) (fst st))
                (visit_deps ns (insert n temp) (dependencies nd) st)"
      using "1.IH"[OF _ _ nd] False by simp
    show ?thesis
    proof (cases "visit_deps ns (insert n temp) (dependencies nd) st")
      case (Inl e)
      then show ?thesis using ih False nd
        by (cases e) (auto simp: visit.simps[of ns temp n st] has_cycle.simps[of ns temp n "fst st"])
    next
      case (Inr st1)
      then show ?thesis using ih False nd
        by (auto simp: visit.simps[of ns temp n st] has_cycle.simps[of ns temp n "fst st"])
    qed
  qed
next
  case (2 ns temp st)
  then show ?case by simp
next
  case (3 ns temp d ds st)
  show ?case
  proof (cases "visit ns temp d st")
    case (Inl e)
    then show ?thesis using "3.IH"(1) by (cases e) auto
  next
    case (Inr st1)
    then show ?thesis using "3.IH"(1) "3.IH"(2)[OF Inr] by auto
  qed
qed

lemma check_cycles_ok:
  "check_cycles ns ks (fst st) = Inr () \<Longrightarrow> \<exists>st'. visit_all ns ks st = Inr st'"
proof (induction ks arbitrary: st)
  case Nil
  then show ?case by simp
next
  case (Cons k ks)
  have so: "same_outcome (has_cycle ns {} k (fst st)) (visit ns {} k st)" by (rule has_cycle_visit(1))
  show ?case
  proof (cases "k \<in> fst st")
    case True
    then have "has_cycle ns {} k (fst st) = Inr (False, fst st)" by (simp add: has_cycle.simps)
    then have "check_cycles ns ks (fst st) = Inr ()" using Cons.prems by simp
    from Cons.IH[OF this] show ?thesis using True by simp
  next
    case False
    show ?thesis
    proof (cases "visit ns {} k st")
      case (Inl e)
      then show ?thesis using so Cons.prems by (cases e) auto
    next
      case (Inr st1)
      then have "has_cycle ns {} k (fst st) = Inr (False, fst st1)" using so by simp
      then have "check_cycles ns ks (fst st1) = Inr ()" using Cons.prems by simp
      from Cons.IH[OF this] show ?thesis using False Inr by simp
    qed
  qed
qed

lemma check_node_deps_ok:
  "check_node_deps ns nd ds = Inr () \<Longrightarrow> set ds \<subseteq> fst ` set ns"
  by (induction ds) (auto split: if_splits simp: map_of_eq_None_iff)

lemma check_deps_ok:
  "check_deps ns nds = Inr () \<Longrightarrow> \<forall>nd \<in> set nds. set (dependencies nd) \<subseteq> fst ` set ns"
  by (induction nds) (auto split: sum.splits dest: check_node_deps_ok)

lemma validate_ok:
  assumes "validate flow = Inr ()"
  shows "deps_exist (nodes flow) \<and> acyclic (dep_rel (nodes flow))"
proof -
  let ?ns = "nodes flow"
  from assms have cd: "check_deps ?ns (map snd ?ns) = Inr ()"
    and cc: "check_cycles ?ns (map fst ?ns) {} = Inr ()"
    unfolding validate_def by (auto split: sum.splits)
  have de: "deps_exist ?ns" using check_deps_ok[OF cd] unfolding deps_exist_def by auto
  have "check_cycles ?ns (map fst ?ns) (fst ({}, [])) = Inr ()" using cc by simp
  from check_cycles_ok[OF this] obtain st' where st': "visit_all ?ns (map fst ?ns) ({}, []) = Inr st'"
    by blast
  have i0: "dfs_inv ?ns ({}, [])" by (simp add: dfs_inv_def)
  have inv: "dfs_inv ?ns st'" and cov: "set (map fst ?ns) \<subseteq> fst st'"
    using visit_all_inv[OF st' i0] by auto
  have "acyclic (dep_rel ?ns)"
    using topo_acyclic[of ?ns "snd st'"] inv cov unfolding dfs_inv_def by auto
  with de show ?thesis by simp
qed

text \<open>
  Claim C1. \<open>execute\<close> validates the whole graph before it runs any node: when some node
  lists a dependency id that is not a key of the node dict, or the dependency relation has
  a cycle, \<open>execute\<close> raises, the world the agents act on is untouched, no call of
  \<open>agent.run\<close> was made (the trace is empty) and no results mapping is returned.
\<close>

theorem execute_fails_fast:
  assumes "\<not> deps_exist (nodes flow) \<or> \<not> acyclic (dep_rel (nodes flow))"
  shows "\<exists>e. execute flow input_data w = (Inl e, w, [])"
proof (cases "validate flow")
  case (Inl e)
  then show ?thesis by (simp add: execute_def)
next
  case (Inr u)
  then have "validate flow = Inr ()" by simp
  from validate_ok[OF this] assms show ?thesis by blast
qed

text \<open>
  Claim C2. When every dependency id exists and the dependency relation is acyclic,
  \<open>_get_execution_order\<close> returns (it does not raise) a topological order: every node id
  exactly once, and each node after all of its dependencies.
\<close>

theorem execution_order_topological:
  assumes de: "deps_exist (nodes flow)" and ac: "acyclic (dep_rel (nodes flow))"
  shows "\<exists>order. get_execution_order flow = Inr order \<and> distinct order \<and>
           set order = node_ids flow \<and>
           (\<forall>pre x post nd. order = pre @ x # post \<and> map_of (nodes flow) x = Some nd
               \<longrightarrow> set (dependencies nd) \<subseteq> set pre)"
proof -
  let ?ns = "nodes flow"
  obtain st' where st': "visit_all ?ns (map fst ?ns) ({}, []) = Inr st'"
    using visit_all_no_error[OF de ac, of "map fst ?ns" "({}, [])"] by auto
  have i0: "dfs_inv ?ns ({}, [])" by (simp add: dfs_inv_def)
  have inv: "dfs_inv ?ns st'" and cov: "set (map fst ?ns) \<subseteq> fst st'"
    using visit_all_inv[OF st' i0] by auto
  have go: "get_execution_order flow = Inr (snd st')" using st' by (simp add: get_execution_order_def)
  have d: "distinct (snd st')" and s: "set (snd st') = node_ids flow" and t: "topo_from ?ns [] (snd st')"
    using inv cov unfolding dfs_inv_def node_ids_def by auto
  have "\<forall>pre x post nd. snd st' = pre @ x # post \<and> map_of ?ns x = Some nd
               \<longrightarrow> set (dependencies nd) \<subseteq> set pre"
    using topo_from_split[of ?ns "[]"] t by fastforce
  with go d s show ?thesis by blast
qed

lemma run_nodes_append:
  "run_nodes flow inp (xs @ ys) r w t =
     (case run_nodes flow inp xs r w t of
        (Inl e, w', t') \<Rightarrow> (Inl e, w', t')
      | (Inr r', w', t') \<Rightarrow> run_nodes flow inp ys r' w' t')"
proof (induction xs arbitrary: r w t)
  case Nil
  then show ?case by simp
next
  case (Cons x xs)
  show ?case
  proof (cases "run_node flow inp x r w t")
    case (fields res w1 t1)
    then show ?thesis using Cons.IH by (cases res) auto
  qed
qed

lemma run_node_keys:
  assumes "run_node flow inp k r w t = (res, w', t')"
  shows "fst ` set t' \<subseteq> insert k (fst ` set t) \<and> (\<forall>r'. res = Inr r' \<longrightarrow> dom r' \<subseteq> insert k (dom r))"
  using assms unfolding run_node_def
  by (auto simp: Let_def split: option.splits if_splits sum.splits prod.splits)

lemma run_nodes_keys:
  "run_nodes flow inp ks r w t = (res, w', t') \<Longrightarrow>
   fst ` set t' \<subseteq> set ks \<union> fst ` set t \<and> (\<forall>r'. res = Inr r' \<longrightarrow> dom r' \<subseteq> set ks \<union> dom r)"
proof (induction ks arbitrary: r w t)
  case Nil
  then show ?case by auto
next
  case (Cons k ks)
  obtain res1 w1 t1 where s1: "run_node flow inp k r w t = (res1, w1, t1)"
    by (cases "run_node flow inp k r w t") auto
  note k1 = run_node_keys[OF s1]
  show ?case
  proof (cases res1)
    case (Inl e)
    then show ?thesis using Cons.prems s1 k1 by auto
  next
    case (Inr r1)
    then have "run_nodes flow inp ks r1 w1 t1 = (res, w', t')" using Cons.prems s1 by simp
    from Cons.IH[OF this] have ih: "fst ` set t' \<subseteq> set ks \<union> fst ` set t1"
      "\<forall>r'. res = Inr r' \<longrightarrow> dom r' \<subseteq> set ks \<union> dom r1" by auto
    have a: "fst ` set t1 \<subseteq> insert k (fst ` set t)" "dom r1 \<subseteq> insert k (dom r)"
      using k1 Inr by auto
    have "fst ` set t' \<subseteq> set (k # ks) \<union> fst ` set t" using ih(1) a(1) by (simp, blast)
    moreover have "\<forall>r'. res = Inr r' \<longrightarrow> dom r' \<subseteq> set (k # ks) \<union> dom r"
      using ih(2) a(2) by (simp, blast)
    ultimately show ?thesis by blast
  qed
qed

lemma collect_inputs_skip:
  "r n = None \<Longrightarrow> collect_inputs ns ni ds r = collect_inputs ns ni (removeAll n ds) r"
  by (induction ds arbitrary: ni) (auto split: option.splits)

lemma get_execution_order_distinct:
  assumes "get_execution_order flow = Inr order"
  shows "distinct order"
proof -
  from assms obtain st' where st': "visit_all (nodes flow) (map fst (nodes flow)) ({}, []) = Inr st'"
    and o: "order = snd st'"
    unfolding get_execution_order_def by (auto split: sum.splits)
  have "dfs_inv (nodes flow) ({}, [])" by (simp add: dfs_inv_def)
  from visit_all_inv[OF st' this] o show ?thesis by (simp add: dfs_inv_def)
qed

text \<open>
  Claim C7, as amended. A node whose guard is false over the initial input merged with
  the results so far is skipped: the state passes it unchanged, \<open>agent.run\<close> is never
  called for it and no key for it is in the results. For every later node, the collected
  input is the one it would have without that dependency: the skipped node contributes no
  entry, so its display name is a key of the dependent's input only when the initial
  input or another dependency with that display name supplies it.
\<close>

theorem guard_skip:
  assumes ord: "get_execution_order flow = Inr (pre @ n # post)"
      and val: "validate flow = Inr ()"
      and pre: "run_nodes flow inp pre Map.empty w [] = (Inr r1, w1, t1)"
      and nd: "map_of (nodes flow) n = Some nd"
      and c: "condition nd = Some c"
      and guard: "\<not> c (inp ++ r1)"
  shows "run_node flow inp n r1 w1 t1 = (Inr r1, w1, t1) \<and>
         execute flow (Some inp) w = run_nodes flow inp post r1 w1 t1 \<and>
         (\<forall>res w' tr. execute flow (Some inp) w = (res, w', tr) \<longrightarrow>
             n \<notin> fst ` set tr \<and> (\<forall>r. res = Inr r \<longrightarrow> r n = None)) \<and>
         (\<forall>post1 m post2 md r2 w2 t2.
             post = post1 @ m # post2 \<and> map_of (nodes flow) m = Some md \<and>
             run_nodes flow inp post1 r1 w1 t1 = (Inr r2, w2, t2) \<longrightarrow>
             r2 n = None \<and>
             collect_inputs (nodes flow) inp (dependencies md) r2 =
               collect_inputs (nodes flow) inp (removeAll n (dependencies md)) r2)"
proof -
  have dist: "distinct (pre @ n # post)" using get_execution_order_distinct[OF ord] .
  have skip: "run_node flow inp n r1 w1 t1 = (Inr r1, w1, t1)"
    using nd c guard by (simp add: run_node_def)
  have ex: "execute flow (Some inp) w = run_nodes flow inp post r1 w1 t1"
    using ord val pre skip by (simp add: execute_def run_nodes_append)
  have k1: "fst ` set t1 \<subseteq> set pre" and k2: "dom r1 \<subseteq> set pre"
    using run_nodes_keys[OF pre] by auto
  have npre: "n \<notin> set pre" and npost: "n \<notin> set post" using dist by auto
  have fin: "\<forall>res w' tr. execute flow (Some inp) w = (res, w', tr) \<longrightarrow>
             n \<notin> fst ` set tr \<and> (\<forall>r. res = Inr r \<longrightarrow> r n = None)"
  proof (intro allI impI)
    fix res w' tr assume "execute flow (Some inp) w = (res, w', tr)"
    then have "run_nodes flow inp post r1 w1 t1 = (res, w', tr)" using ex by simp
    from run_nodes_keys[OF this] have kk: "fst ` set tr \<subseteq> set post \<union> fst ` set t1"
      "\<forall>r. res = Inr r \<longrightarrow> dom r \<subseteq> set post \<union> dom r1" by auto
    have "n \<notin> fst ` set tr" using kk(1) k1 npre npost by (meson UnE subsetD)
    moreover have "\<forall>r. res = Inr r \<longrightarrow> r n = None"
    proof (intro allI impI)
      fix r assume "res = Inr r"
      then have "dom r \<subseteq> set post \<union> dom r1" using kk(2) by simp
      then have "n \<notin> dom r" using k2 npre npost by (meson UnE subsetD)
      then show "r n = None" by (simp add: domIff)
    qed
    ultimately show "n \<notin> fst ` set tr \<and> (\<forall>r. res = Inr r \<longrightarrow> r n = None)"
      by simp
  qed
  have dep: "\<forall>post1 m post2 md r2 w2 t2.
             post = post1 @ m # post2 \<and> map_of (nodes flow) m = Some md \<and>
             run_nodes flow inp post1 r1 w1 t1 = (Inr r2, w2, t2) \<longrightarrow>
             r2 n = None \<and>
             collect_inputs (nodes flow) inp (dependencies md) r2 =
               collect_inputs (nodes flow) inp (removeAll n (dependencies md)) r2"
  proof (intro allI impI)
    fix post1 m post2 md r2 w2 t2
    assume a: "post = post1 @ m # post2 \<and> map_of (nodes flow) m = Some md \<and>
             run_nodes flow inp post1 r1 w1 t1 = (Inr r2, w2, t2)"
    then have "dom r2 \<subseteq> set post1 \<union> dom r1" using run_nodes_keys[of flow inp post1 r1 w1 t1] by auto
    moreover have "n \<notin> set post1" using a npost by auto
    ultimately have "n \<notin> dom r2" using k2 npre by (meson UnE subsetD)
    then have "r2 n = None" by (simp add: domIff)
    then show "r2 n = None \<and>
             collect_inputs (nodes flow) inp (dependencies md) r2 =
               collect_inputs (nodes flow) inp (removeAll n (dependencies md)) r2"
      using collect_inputs_skip by blast
  qed
  from skip ex fin dep show ?thesis by blast
qed

lemma update_nonmember: "k \<notin> fst ` set al \<Longrightarrow> AList.update k v al = al @ [(k, v)]"
  by (induction al) auto

lemma update_member: "(k, v) \<in> set (AList.update k v al)"
  by (induction al) auto

lemma add_node_nodes:
  "nodes (snd (add_node flow uuid ag nm descr deps cond tin tout)) =
     AList.update uuid (new_node uuid ag nm descr deps cond tin tout) (nodes flow)"
  by (simp add: add_node_def add_agent_def new_node_def Let_def)

lemma invalid_execute:
  assumes "\<not> (deps_exist (nodes flow) \<and> acyclic (dep_rel (nodes flow)))"
  shows "\<exists>e. execute flow input_data w = (Inl e, w, [])"
proof (cases "validate flow")
  case (Inl e)
  then show ?thesis by (simp add: execute_def)
next
  case (Inr u)
  then have "validate flow = Inr ()" by simp
  from validate_ok[OF this] assms show ?thesis by blast
qed

lemma ids_drawn_init: "ids_drawn src (Workflow_init uuid nm descr)"
  by (simp add: ids_drawn_def node_ids_def Workflow_init_def)

lemma fresh_draw:
  assumes "inj (draws src)" "ids_drawn src flow"
  shows "draws src (drawn src) \<notin> node_ids flow"
proof
  assume "draws src (drawn src) \<in> node_ids flow"
  then obtain k where "k < drawn src" "draws src (drawn src) = draws src k"
    using assms(2) unfolding ids_drawn_def by blast
  then show False using assms(1) by (auto dest: injD)
qed

text \<open>
  Claim C10. \<open>add_node\<close> validates nothing: for every agent, name and dependency list,
  and whatever id is drawn, it returns that id and stores the node under it, leaving the
  other nodes as they were; a dependency id that is not in the graph, or the node's own
  id among its dependencies, is only found by \<open>execute\<close>, which then raises before any
  node runs. The id returned is fresh: when the source of ids never gives an id twice
  and the ids of the graph are ids given earlier (as they are in a workflow built from
  \<open>Workflow_init\<close> by \<open>add_node_uuid4\<close>), the id that \<open>add_node_uuid4\<close> returns is not an
  id of the graph before the call, the node is appended to the node dict under it, and
  both conditions hold again after the call.
\<close>

theorem add_node_no_validation:
  "fst (add_node flow uuid ag nm descr deps cond tin tout) = uuid \<and>
   map_of (nodes (snd (add_node flow uuid ag nm descr deps cond tin tout))) uuid =
     Some (new_node uuid ag nm descr deps cond tin tout) \<and>
   (\<forall>k. k \<noteq> uuid \<longrightarrow> map_of (nodes (snd (add_node flow uuid ag nm descr deps cond tin tout))) k =
                         map_of (nodes flow) k) \<and>
   (\<forall>ds. deps = Some ds \<and> ((\<exists>d \<in> set ds. d \<notin> insert uuid (node_ids flow)) \<or> uuid \<in> set ds) \<longrightarrow>
      (\<exists>e. execute (snd (add_node flow uuid ag nm descr deps cond tin tout)) input_data w
             = (Inl e, w, []))) \<and>
   (inj (draws src) \<and> ids_drawn src flow \<longrightarrow>
      (\<exists>nid flow' src'.
          add_node_uuid4 flow src ag nm descr deps cond tin tout = (nid, flow', src') \<and>
          (nid, flow') = add_node flow nid ag nm descr deps cond tin tout \<and>
          nid \<notin> node_ids flow \<and>
          nodes flow' = nodes flow @ [(nid, new_node nid ag nm descr deps cond tin tout)] \<and>
          inj (draws src') \<and> ids_drawn src' flow'))"
proof -
  let ?nd = "new_node uuid ag nm descr deps cond tin tout"
  let ?flow' = "snd (add_node flow uuid ag nm descr deps cond tin tout)"
  have ns: "nodes ?flow' = AList.update uuid ?nd (nodes flow)" by (rule add_node_nodes)
  have a: "fst (add_node flow uuid ag nm descr deps cond tin tout) = uuid"
    by (simp add: add_node_def Let_def)
  have b: "map_of (nodes ?flow') uuid = Some ?nd" by (simp add: ns update_conv')
  have c: "\<forall>k. k \<noteq> uuid \<longrightarrow> map_of (nodes ?flow') k = map_of (nodes flow) k"
    by (simp add: ns update_conv')
  have e: "\<forall>ds. deps = Some ds \<and> ((\<exists>d \<in> set ds. d \<notin> insert uuid (node_ids flow)) \<or> uuid \<in> set ds) \<longrightarrow>
      (\<exists>e. execute ?flow' input_data w = (Inl e, w, []))"
  proof (intro allI impI)
    fix ds assume h: "deps = Some ds \<and> ((\<exists>d \<in> set ds. d \<notin> insert uuid (node_ids flow)) \<or> uuid \<in> set ds)"
    then have dn: "dependencies ?nd = ds" by (simp add: new_node_def)
    have keys: "fst ` set (nodes ?flow') = insert uuid (node_ids flow)"
      by (simp add: ns dom_update node_ids_def)
    have mem: "?nd \<in> snd ` set (nodes ?flow')"
      using update_member[of uuid ?nd "nodes flow"] ns by (metis image_eqI snd_conv)
    have "\<not> (deps_exist (nodes ?flow') \<and> acyclic (dep_rel (nodes ?flow')))"
    proof (cases "uuid \<in> set ds")
      case True
      then have "(uuid, uuid) \<in> dep_rel (nodes ?flow')" using b dn by (auto simp: dep_rel_def)
      then have "\<not> acyclic (dep_rel (nodes ?flow'))" by (meson acyclic_def trancl.r_into_trancl)
      then show ?thesis by simp
    next
      case False
      then obtain d where "d \<in> set ds" "d \<notin> insert uuid (node_ids flow)" using h by blast
      then have "\<not> deps_exist (nodes ?flow')" using mem dn keys unfolding deps_exist_def by metis
      then show ?thesis by simp
    qed
    from invalid_execute[OF this] show "\<exists>e. execute ?flow' input_data w = (Inl e, w, [])" .
  qed
  have f: "inj (draws src) \<and> ids_drawn src flow \<longrightarrow>
      (\<exists>nid flow' src'.
          add_node_uuid4 flow src ag nm descr deps cond tin tout = (nid, flow', src') \<and>
          (nid, flow') = add_node flow nid ag nm descr deps cond tin tout \<and>
          nid \<notin> node_ids flow \<and>
          nodes flow' = nodes flow @ [(nid, new_node nid ag nm descr deps cond tin tout)] \<and>
          inj (draws src') \<and> ids_drawn src' flow')"
  proof
    assume h: "inj (draws src) \<and> ids_drawn src flow"
    let ?u = "draws src (drawn src)"
    let ?src' = "src\<lparr>drawn := Suc (drawn src)\<rparr>"
    let ?f = "snd (add_node flow ?u ag nm descr deps cond tin tout)"
    have fu: "fst (add_node flow ?u ag nm descr deps cond tin tout) = ?u"
      by (simp add: add_node_def Let_def)
    have r: "add_node_uuid4 flow src ag nm descr deps cond tin tout = (?u, ?f, ?src')"
      using fu by (simp add: add_node_uuid4_def uuid4_def Let_def split_beta)
    have p: "(?u, ?f) = add_node flow ?u ag nm descr deps cond tin tout"
      using fu by (metis prod.collapse)
    have fr: "?u \<notin> node_ids flow" using fresh_draw h by blast
    have nsu: "nodes ?f = AList.update ?u (new_node ?u ag nm descr deps cond tin tout) (nodes flow)"
      by (rule add_node_nodes)
    have ap: "nodes ?f = nodes flow @ [(?u, new_node ?u ag nm descr deps cond tin tout)]"
      using fr by (simp add: nsu node_ids_def update_nonmember)
    have i: "inj (draws ?src')" using h by simp
    have "node_ids flow \<subseteq> draws src ` {..<drawn src}" using h by (simp add: ids_drawn_def)
    then have "node_ids ?f \<subseteq> draws src ` {..<Suc (drawn src)}"
      unfolding node_ids_def ap by (auto simp: lessThan_Suc)
    then have d: "ids_drawn ?src' ?f" by (simp add: ids_drawn_def)
    from r p fr ap i d show "\<exists>nid flow' src'.
          add_node_uuid4 flow src ag nm descr deps cond tin tout = (nid, flow', src') \<and>
          (nid, flow') = add_node flow nid ag nm descr deps cond tin tout \<and>
          nid \<notin> node_ids flow \<and>
          nodes flow' = nodes flow @ [(nid, new_node nid ag nm descr deps cond tin tout)] \<and>
          inj (draws src') \<and> ids_drawn src' flow'"
      by blast
  qed
  from a b c e f show ?thesis by blast
qed

lemmas flow_defs = empty_flow_def Workflow_init_def add_node_def add_agent_def counting_agent_def
  Let_def validate_def execute_def get_execution_order_def run_node_def
  strip_def lstrip_def rstrip_def is_space_def

lemma execute_cyclic_flow:
  "execute cyclic_flow None 0 = (Inl (ValueError ''Circular dependency detected in workflow''), 0, [])"
  by (simp add: cyclic_flow_def flow_defs has_cycle.simps)

lemma execute_dangling_flow:
  "execute dangling_flow None 0 = (Inl (ValueError ''Node A depends on non-existent node missing''), 0, [])"
  by (simp add: dangling_flow_def flow_defs)

lemma execution_order_abc: "get_execution_order abc_flow = Inr [''a'', ''b'', ''c'']"
  by (simp add: abc_flow_def flow_defs visit.simps)

lemma execute_abc:
  "execute abc_flow (Some [''q'' \<mapsto> ''x'']) 0 =
    (Inr [''a'' \<mapsto> ''done: A: '', ''b'' \<mapsto> ''done: B: '', ''c'' \<mapsto> ''done: C: ''], 3,
     [(''a'', ''A: '', [''q'' \<mapsto> ''x'']),
      (''b'', ''B: '', [''q'' \<mapsto> ''x'', ''A'' \<mapsto> ''done: A: '']),
      (''c'', ''C: '', [''q'' \<mapsto> ''x'', ''A'' \<mapsto> ''done: A: '', ''B'' \<mapsto> ''done: B: ''])])"
  by (simp add: abc_flow_def flow_defs visit.simps has_cycle.simps)

lemma execute_guard_flow:
  "execute guard_flow (Some [''A'' \<mapsto> ''x'']) 0 =
    (Inr [''b'' \<mapsto> ''done: B: ''], 1, [(''b'', ''B: '', [''A'' \<mapsto> ''x''])])"
  by (simp add: guard_flow_def flow_defs visit.simps has_cycle.simps)

subsection \<open>The properties at the example workflows\<close>

lemma nodes_cyclic_flow:
  "nodes cyclic_flow =
     [(''a'', new_node ''a'' (counting_agent ''ag'') ''A'' '''' (Some [''b'']) None None None),
      (''b'', new_node ''b'' (counting_agent ''ag'') ''B'' '''' (Some [''a'']) None None None)]"
  by (simp add: cyclic_flow_def add_node_nodes empty_flow_def Workflow_init_def)

lemma cyclic_flow_cycle: "\<not> acyclic (dep_rel (nodes cyclic_flow))"
proof -
  have "(''a'', ''b'') \<in> dep_rel (nodes cyclic_flow)" "(''b'', ''a'') \<in> dep_rel (nodes cyclic_flow)"
    by (simp_all add: dep_rel_def nodes_cyclic_flow new_node_def)
  then have "(''a'', ''a'') \<in> (dep_rel (nodes cyclic_flow))\<^sup>+" by (meson trancl.simps)
  then show ?thesis by (meson acyclic_def)
qed

theorem execute_fails_fast_witness:
  "\<not> acyclic (dep_rel (nodes cyclic_flow)) \<and>
   (\<exists>e. execute cyclic_flow None (0::nat) = (Inl e, 0, []))"
  using execute_fails_fast[of cyclic_flow None 0] cyclic_flow_cycle by simp

lemma nodes_abc_flow:
  "nodes abc_flow =
     [(''a'', new_node ''a'' (counting_agent ''ag'') ''A'' '''' None None None None),
      (''b'', new_node ''b'' (counting_agent ''ag'') ''B'' '''' (Some [''a'']) None None None),
      (''c'', new_node ''c'' (counting_agent ''ag'') ''C'' '''' (Some [''a'', ''b'']) None None None)]"
  by (simp add: abc_flow_def add_node_nodes empty_flow_def Workflow_init_def)

lemma abc_flow_valid: "deps_exist (nodes abc_flow) \<and> acyclic (dep_rel (nodes abc_flow))"
proof -
  have "deps_exist (nodes abc_flow)" by (simp add: deps_exist_def nodes_abc_flow new_node_def)
  moreover have "acyclic (dep_rel (nodes abc_flow))"
    by (rule topo_acyclic[of _ "[''a'', ''b'', ''c'']"]) (simp_all add: nodes_abc_flow new_node_def)
  ultimately show ?thesis by simp
qed

theorem execution_order_topological_witness:
  "deps_exist (nodes abc_flow) \<and> acyclic (dep_rel (nodes abc_flow)) \<and>
   (\<exists>order. get_execution_order abc_flow = Inr order \<and> distinct order \<and>
       set order = node_ids abc_flow \<and> order = [''a'', ''b'', ''c''])"
proof -
  have "\<exists>order. get_execution_order abc_flow = Inr order \<and> distinct order \<and>
           set order = node_ids abc_flow \<and>
           (\<forall>pre x post nd. order = pre @ x # post \<and> map_of (nodes abc_flow) x = Some nd
               \<longrightarrow> set (dependencies nd) \<subseteq> set pre)"
    using abc_flow_valid by (intro execution_order_topological) simp_all
  then obtain order where o: "get_execution_order abc_flow = Inr order \<and> distinct order \<and>
           set order = node_ids abc_flow \<and>
           (\<forall>pre x post nd. order = pre @ x # post \<and> map_of (nodes abc_flow) x = Some nd
               \<longrightarrow> set (dependencies nd) \<subseteq> set pre)" ..
  have o1: "get_execution_order abc_flow = Inr order" using o by (rule conjunct1)
  have o2: "distinct order" using o[THEN conjunct2] by (rule conjunct1)
  have o3: "set order = node_ids abc_flow" using o[THEN conjunct2, THEN conjunct2] by (rule conjunct1)
  have o4: "order = [''a'', ''b'', ''c'']" using o1 execution_order_abc by simp
  have "get_execution_order abc_flow = Inr order \<and> distinct order \<and>
       set order = node_ids abc_flow \<and> order = [''a'', ''b'', ''c'']"
    using o1 o2 o3 o4 by (intro conjI)
  then have "\<exists>order. get_execution_order abc_flow = Inr order \<and> distinct order \<and>
       set order = node_ids abc_flow \<and> order = [''a'', ''b'', ''c'']" ..
  with abc_flow_valid show ?thesis by (intro conjI) simp_all
qed

lemma nodes_guard_flow:
  "nodes guard_flow =
     [(''a'', new_node ''a'' (counting_agent ''ag'') ''A'' '''' None (Some (\<lambda>c. False)) None None),
      (''b'', new_node ''b'' (counting_agent ''ag'') ''B'' '''' (Some [''a'']) None None None)]"
  by (simp add: guard_flow_def add_node_nodes empty_flow_def Workflow_init_def)

lemma guard_flow_order: "get_execution_order guard_flow = Inr ([] @ ''a'' # [''b''])"
  by (simp add: guard_flow_def flow_defs visit.simps)

lemma guard_flow_valid: "validate guard_flow = Inr ()"
  by (simp add: guard_flow_def flow_defs has_cycle.simps)

theorem guard_skip_witness:
  "get_execution_order guard_flow = Inr ([] @ ''a'' # [''b'']) \<and>
   validate guard_flow = Inr () \<and>
   run_nodes guard_flow [''q'' \<mapsto> ''x''] [] Map.empty (0::nat) [] = (Inr Map.empty, 0, []) \<and>
   map_of (nodes guard_flow) ''a'' =
     Some (new_node ''a'' (counting_agent ''ag'') ''A'' '''' None (Some (\<lambda>c. False)) None None) \<and>
   run_node guard_flow [''q'' \<mapsto> ''x''] ''a'' Map.empty 0 [] = (Inr Map.empty, 0, []) \<and>
   execute guard_flow (Some [''q'' \<mapsto> ''x'']) 0 =
     run_nodes guard_flow [''q'' \<mapsto> ''x''] [''b''] Map.empty 0 [] \<and>
   execute guard_flow (Some [''q'' \<mapsto> ''x'']) 0 =
     (Inr [''b'' \<mapsto> ''done: B: ''], 1, [(''b'', ''B: '', [''q'' \<mapsto> ''x''])])"
proof -
  let ?nd = "new_node ''a'' (counting_agent ''ag'') ''A'' '''' None (Some (\<lambda>c. False)) None None
              :: string WorkflowNode"
  have pre: "run_nodes guard_flow [''q'' \<mapsto> ''x''] [] Map.empty (0::nat) [] = (Inr Map.empty, 0, [])"
    by simp
  have nd: "map_of (nodes guard_flow) ''a'' = Some ?nd" by (simp add: nodes_guard_flow)
  have c: "condition ?nd = Some (\<lambda>c. False)" by (simp add: new_node_def)
  have g: "\<not> (\<lambda>c. False) ([''q'' \<mapsto> ''x''] ++ Map.empty)" by simp
  note t = guard_skip[OF guard_flow_order guard_flow_valid pre nd c g]
  have ex: "execute guard_flow (Some [''q'' \<mapsto> ''x'']) 0 =
     (Inr [''b'' \<mapsto> ''done: B: ''], 1, [(''b'', ''B: '', [''q'' \<mapsto> ''x''])])"
    by (simp add: guard_flow_def flow_defs visit.simps has_cycle.simps)
  note t1 = t[THEN conjunct1]
  note t2 = t[THEN conjunct2, THEN conjunct1]
  show ?thesis
    by (intro conjI) (rule guard_flow_order guard_flow_valid pre nd t1 t2 ex)+
qed

theorem guard_skip_counterexample:
  "map_of (nodes guard_flow) ''a'' =
     Some (new_node ''a'' (counting_agent ''ag'') ''A'' '''' None (Some (\<lambda>c. False)) None None) \<and>
   execute guard_flow (Some [''A'' \<mapsto> ''x'']) 0 =
     (Inr [''b'' \<mapsto> ''done: B: ''], 1, [(''b'', ''B: '', [''A'' \<mapsto> ''x''])]) \<and>
   [''A'' \<mapsto> ''x''] ''A'' \<noteq> None"
  using execute_guard_flow by (simp add: nodes_guard_flow)

lemma inj_demo_source: "inj (draws demo_source)"
proof (rule injI)
  fix x y assume "draws demo_source x = draws demo_source y"
  then have "length (replicate (Suc x) CHR ''u'') = length (replicate (Suc y) CHR ''u'')"
    by (simp add: demo_source_def)
  then show "x = y" by simp
qed

lemma drawn_flow_eval:
  "drawn_flow = (snd (add_node empty_flow ''u'' (counting_agent ''ag'') ''A'' '''' None None None None),
                 demo_source\<lparr>drawn := 1\<rparr>)"
  by (simp add: drawn_flow_def add_node_uuid4_def uuid4_def demo_source_def Let_def split_beta)

lemma nodes_drawn_flow:
  "nodes (fst drawn_flow) = [(''u'', new_node ''u'' (counting_agent ''ag'') ''A'' '''' None None None None)]"
  by (simp add: drawn_flow_eval add_node_nodes empty_flow_def Workflow_init_def)

lemma ids_drawn_flow: "ids_drawn (snd drawn_flow) (fst drawn_flow)"
  by (simp add: ids_drawn_def node_ids_def nodes_drawn_flow) (simp add: drawn_flow_eval demo_source_def)

theorem add_node_no_validation_witness:
  "inj (draws (snd drawn_flow)) \<and> ids_drawn (snd drawn_flow) (fst drawn_flow) \<and>
   fst (add_node_uuid4 (fst drawn_flow) (snd drawn_flow) (counting_agent ''ag'') ''B'' ''''
          (Some [''zz'', ''uu'']) None None None) = ''uu'' \<and>
   ''uu'' \<notin> node_ids (fst drawn_flow) \<and>
   nodes (fst (snd (add_node_uuid4 (fst drawn_flow) (snd drawn_flow) (counting_agent ''ag'') ''B'' ''''
          (Some [''zz'', ''uu'']) None None None))) =
     nodes (fst drawn_flow) @
       [(''uu'', new_node ''uu'' (counting_agent ''ag'') ''B'' '''' (Some [''zz'', ''uu'']) None None None)] \<and>
   map_of (nodes (snd (add_node (fst drawn_flow) ''uu'' (counting_agent ''ag'') ''B'' '''' (Some [''zz'', ''uu'']) None None None))) ''u'' =
     map_of (nodes (fst drawn_flow)) ''u'' \<and>
   (\<exists>e. execute (snd (add_node (fst drawn_flow) ''uu'' (counting_agent ''ag'') ''B'' '''' (Some [''zz'', ''uu'']) None None None))
           None (0::nat) = (Inl e, 0, []))"
proof -
  have i: "inj (draws (snd drawn_flow))" using inj_demo_source by (simp add: drawn_flow_eval)
  note t = add_node_no_validation[of "fst drawn_flow" "''uu''" "counting_agent ''ag''" "''B''" "''''"
      "Some [''zz'', ''uu'']" None None None None "0::nat" "snd drawn_flow"]
  have k: "''u'' \<noteq> ''uu''" by simp
  note t3 = t[THEN conjunct2, THEN conjunct2, THEN conjunct1, rule_format, OF k]
  have h: "Some [''zz'', ''uu''] = Some [''zz'', ''uu''] \<and>
     ((\<exists>d \<in> set [''zz'', ''uu'']. d \<notin> insert ''uu'' (node_ids (fst drawn_flow))) \<or> ''uu'' \<in> set [''zz'', ''uu''])"
    by simp
  note t4 = t[THEN conjunct2, THEN conjunct2, THEN conjunct2, THEN conjunct1, rule_format, OF h]
  note t5 = t[THEN conjunct2, THEN conjunct2, THEN conjunct2, THEN conjunct2, rule_format, OF conjI[OF i ids_drawn_flow]]
  have u: "fst (add_node_uuid4 (fst drawn_flow) (snd drawn_flow) (counting_agent ''ag'') ''B'' ''''
          (Some [''zz'', ''uu'']) None None None) = ''uu''"
    by (simp add: add_node_uuid4_def uuid4_def Let_def split_beta add_node_def)
       (simp add: drawn_flow_eval demo_source_def)
  from t5 u have fr: "''uu'' \<notin> node_ids (fst drawn_flow)" by auto
  from t5 u have ap: "nodes (fst (snd (add_node_uuid4 (fst drawn_flow) (snd drawn_flow) (counting_agent ''ag'') ''B'' ''''
          (Some [''zz'', ''uu'']) None None None))) =
     nodes (fst drawn_flow) @
       [(''uu'', new_node ''uu'' (counting_agent ''ag'') ''B'' '''' (Some [''zz'', ''uu'']) None None None)]"
    by auto
  show ?thesis by (intro conjI) (rule i ids_drawn_flow u fr ap t3 t4)+
qed


section \<open>The response extractor (core/parser.py)\<close>

text \<open>
  The patterns of the parsers all have one shape: a label, then \<open>\s*\<close> (not always),
  then a lazy group \<open>(.*?)\<close> under \<open>re.DOTALL\<close>, then an alternation of terminators
  that ends or starts with \<open>$\<close>. Labels and terminators are sequences of literal text
  and \<open>\d+\<close>; \<open>match_atoms\<close> matches one at the start of a string and gives the rest.
  \<open>\d+\<close> takes all the digits there are: it is always followed by a colon, so giving
  digits back never helps.
\<close>

datatype atom = Lit string | Digits

fun match_atoms :: "atom list \<Rightarrow> string \<Rightarrow> string option" where
  "match_atoms [] s = Some s"
| "match_atoms (Lit l # as) s =
     (if starts_with l s then match_atoms as (drop (length l) s) else None)"
| "match_atoms (Digits # as) s =
     (if takeWhile is_digit s = [] then None else match_atoms as (dropWhile is_digit s))"

fun match_any :: "atom list list \<Rightarrow> string \<Rightarrow> string option" where
  "match_any [] s = None"
| "match_any (p # ps) s = (case match_atoms p s of Some r \<Rightarrow> Some r | None \<Rightarrow> match_any ps s)"

text \<open>
  \<open>search_any\<close> finds the leftmost position where one of the alternatives matches, as
  \<open>re.search\<close> does. \<open>lazy_until\<close> is the lazy group followed by the terminators: it
  takes one character at a time and stops at the first position where a terminator
  matches (the terminator is consumed) or where \<open>$\<close> matches, which without
  \<open>re.MULTILINE\<close> is the end of the string or just before a newline that ends the string.
  It returns the group and the text after the match. After the label the rest of the
  pattern always matches, so \<open>\s*\<close> keeps all the white space it took.
\<close>

fun search_any :: "atom list list \<Rightarrow> string \<Rightarrow> string option" where
  "search_any ps [] = match_any ps []"
| "search_any ps (c # cs) =
     (case match_any ps (c # cs) of Some r \<Rightarrow> Some r | None \<Rightarrow> search_any ps cs)"

fun lazy_until :: "atom list list \<Rightarrow> string \<Rightarrow> string \<times> string" where
  "lazy_until ts [] = ([], [])"
| "lazy_until ts (c # cs) =
     (case match_any ts (c # cs) of
        Some r \<Rightarrow> ([], r)
      | None \<Rightarrow>
          if c # cs = [CHR 0x0A] then ([], c # cs)
          else (case lazy_until ts cs of (cap, r) \<Rightarrow> (c # cap, r)))"

definition field_search :: "atom list list \<Rightarrow> bool \<Rightarrow> atom list list \<Rightarrow> string \<Rightarrow> (string \<times> string) option" where
  "field_search label ws terms s =
     (case search_any label s of
        None \<Rightarrow> None
      | Some r \<Rightarrow> Some (lazy_until terms (if ws then dropWhile is_space r else r)))"

text \<open>
  \<open>re.finditer\<close>: the next search starts where the last match ended. Every label starts
  with literal text, so a match consumes at least one character and the length test below
  never fails; it makes the recursion terminate for every argument.
\<close>

function field_finditer :: "atom list list \<Rightarrow> bool \<Rightarrow> atom list list \<Rightarrow> string \<Rightarrow> string list" where
  "field_finditer label ws terms s =
     (case field_search label ws terms s of
        None \<Rightarrow> []
      | Some (cap, rest) \<Rightarrow>
          if length rest < length s then cap # field_finditer label ws terms rest else [cap])"
  by pat_completeness auto
termination
  by (relation "measure (\<lambda>(label, ws, terms, s). length s)") auto

declare field_finditer.simps [simp del]

text \<open>
  \<open>m.group(1).strip() if m else ""\<close> for the match \<open>m\<close> of \<open>re.search\<close>.
\<close>

definition first_group :: "atom list list \<Rightarrow> bool \<Rightarrow> atom list list \<Rightarrow> string \<Rightarrow> string" where
  "first_group label ws terms text =
     (case field_search label ws terms text of None \<Rightarrow> [] | Some (cap, rest) \<Rightarrow> strip cap)"

text \<open>
  The dictionaries the parsers return. \<open>groups\<close> is the entry \<open>cycles\<close> (ReAct, BDI),
  \<open>loops\<close> (OODA) or \<open>nodes\<close> (LAT): a list of dicts, each an association list in
  insertion order.
\<close>

record BaseParsed =
  final_answer :: string
  raw_response :: string

record 'a GroupParsed = BaseParsed +
  groups :: "(string \<times> 'a) list list"

record RaiseParsed = BaseParsed +
  task_analysis :: string
  relevant_examples :: string
  scratch_pad_raw :: string
  scratch_pad_steps :: "string list"

record RewooParsed = BaseParsed +
  problem_analysis :: string
  reasoning_raw :: string
  reasoning_steps :: "string list"
  conclusion :: string

definition has_key :: "string \<Rightarrow> (string \<times> 'a) list \<Rightarrow> bool" where
  "has_key k d = (map_of d k \<noteq> None)"

text \<open>
  The three kinds of loop over the matches that the parsers with groups are made of: the
  first field starts a new current group, a middle field is attached when the fields it
  needs are in the current group, the last field is attached, closes the group and
  empties the current one. \<open>mk\<close> wraps the value (LAT keeps branch lists beside strings).
\<close>

fun group_start :: "string \<Rightarrow> string list \<Rightarrow> (string \<times> string) list \<Rightarrow> (string \<times> string) list" where
  "group_start k [] cur = cur"
| "group_start k (m # ms) cur =
     (let v = strip m in group_start k ms (if v \<noteq> [] then [(k, v)] else cur))"

fun group_attach ::
  "string \<Rightarrow> string list \<Rightarrow> string list \<Rightarrow> (string \<times> string) list \<Rightarrow> (string \<times> string) list" where
  "group_attach k needs [] cur = cur"
| "group_attach k needs (m # ms) cur =
     (let v = strip m
      in group_attach k needs ms
           (if v \<noteq> [] \<and> (\<forall>n \<in> set needs. has_key n cur) then AList.update k v cur else cur))"

fun group_close ::
  "string \<Rightarrow> string list \<Rightarrow> string list \<Rightarrow> (string \<times> 'a) list \<times> (string \<times> 'a) list list \<Rightarrow>
   (string \<Rightarrow> 'a) \<Rightarrow> (string \<times> 'a) list \<times> (string \<times> 'a) list list" where
  "group_close k needs [] st mk = st"
| "group_close k needs (m # ms) (cur, gs) mk =
     (let v = strip m
      in group_close k needs ms
           (if v \<noteq> [] \<and> (\<forall>n \<in> set needs. has_key n cur)
            then ([], gs @ [AList.update k (mk v) cur])
            else (cur, gs)) mk)"

definition ReActParser_parse :: "string \<Rightarrow> string GroupParsed" where
  "ReActParser_parse text =
     (let answer = first_group [[Lit ''Final Answer:'']] True [[Lit ''Thought:'']] text;
          cur1 = group_start ''thought''
                   (field_finditer [[Lit ''Thought:'']] True
                      [[Lit ''Action:''], [Lit ''Observation:''], [Lit ''Final Answer:'']] text) [];
          cur2 = group_attach ''action'' [''thought'']
                   (field_finditer [[Lit ''Action:'']] True
                      [[Lit ''Observation:''], [Lit ''Thought:''], [Lit ''Final Answer:'']] text) cur1;
          st = group_close ''observation'' [''thought'', ''action'']
                   (field_finditer [[Lit ''Observation:'']] True
                      [[Lit ''Thought:''], [Lit ''Action:''], [Lit ''Final Answer:'']] text) (cur2, []) id;
          cycles = (if fst st \<noteq> [] \<and> has_key ''thought'' (fst st) then snd st @ [fst st] else snd st)
      in \<lparr>final_answer = answer, raw_response = text, groups = cycles\<rparr>)"

definition OODAParser_parse :: "string \<Rightarrow> string GroupParsed" where
  "OODAParser_parse text =
     (let answer = first_group [[Lit ''Final Answer:'']] True [[Lit ''Observation:'']] text;
          cur1 = group_start ''observation''
                   (field_finditer [[Lit ''Observation:'']] True
                      [[Lit ''Orientation:''], [Lit ''Decision:''], [Lit ''Action:''], [Lit ''Final Answer:'']] text) [];
          cur2 = group_attach ''orientation'' [''observation'']
                   (field_finditer [[Lit ''Orientation:'']] True
                      [[Lit ''Decision:''], [Lit ''Action:''], [Lit ''Observation:''], [Lit ''Final Answer:'']] text) cur1;
          cur3 = group_attach ''decision'' [''observation'', ''orientation'']
                   (field_finditer [[Lit ''Decision:'']] True
                      [[Lit ''Action:''], [Lit ''Observation:''], [Lit ''Orientation:''], [Lit ''Final Answer:'']] text) cur2;
          st = group_close ''action'' [''observation'', ''orientation'', ''decision'']
                   (field_finditer [[Lit ''Action:'']] True
                      [[Lit ''Observation:''], [Lit ''Orientation:''], [Lit ''Decision:''], [Lit ''Final Answer:'']] text)
                   (cur3, []) id
      in \<lparr>final_answer = answer, raw_response = text, groups = snd st\<rparr>)"

definition BDIParser_parse :: "string \<Rightarrow> string GroupParsed" where
  "BDIParser_parse text =
     (let answer = first_group [[Lit ''Final Answer:'']] True [[Lit ''Beliefs:'']] text;
          cur1 = group_start ''beliefs''
                   (field_finditer [[Lit ''Beliefs:'']] True
                      [[Lit ''Desires:''], [Lit ''Intentions:''], [Lit ''Execution:''], [Lit ''Final Answer:'']] text) [];
          cur2 = group_attach ''desires'' [''beliefs'']
                   (field_finditer [[Lit ''Desires:'']] True
                      [[Lit ''Intentions:''], [Lit ''Execution:''], [Lit ''Beliefs:''], [Lit ''Final Answer:'']] text) cur1;
          cur3 = group_attach ''intentions'' [''beliefs'', ''desires'']
                   (field_finditer [[Lit ''Intentions:'']] True
                      [[Lit ''Execution:''], [Lit ''Beliefs:''], [Lit ''Desires:''], [Lit ''Final Answer:'']] text) cur2;
          st = group_close ''execution'' [''beliefs'', ''desires'', ''intentions'']
                   (field_finditer [[Lit ''Execution:'']] True
                      [[Lit ''Beliefs:''], [Lit ''Desires:''], [Lit ''Intentions:''], [Lit ''Final Answer:'']] text)
                   (cur3, []) id
      in \<lparr>final_answer = answer, raw_response = text, groups = snd st\<rparr>)"

datatype lat_val = LStr string | LBranches "(string \<times> string) list list"

definition lat_branches :: "string \<Rightarrow> (string \<times> string) list list" where
  "lat_branches m =
     (let branches_text = strip m;
          options = map strip (field_finditer [[Lit ''- Option '', Digits, Lit '':'']] True
                                 [[Lit ''  Evaluation:'']] branches_text);
          evaluations = map strip (field_finditer [[Lit ''  Evaluation:'']] True
                                     [[Lit ''- Option '', Digits, Lit '':'']] branches_text)
      in map (\<lambda>(opt, ev). [(''option'', opt), (''evaluation'', ev)]) (zip options evaluations))"

fun lat_start :: "string list \<Rightarrow> (string \<times> lat_val) list \<Rightarrow> (string \<times> lat_val) list" where
  "lat_start [] cur = cur"
| "lat_start (m # ms) cur =
     (let problem = strip m in lat_start ms (if problem \<noteq> [] then [(''problem'', LStr problem)] else cur))"

fun lat_attach :: "string list \<Rightarrow> (string \<times> lat_val) list \<Rightarrow> (string \<times> lat_val) list" where
  "lat_attach [] cur = cur"
| "lat_attach (m # ms) cur =
     (let branches = lat_branches m
      in lat_attach ms
           (if branches \<noteq> [] \<and> has_key ''problem'' cur
            then AList.update ''branches'' (LBranches branches) cur else cur))"

definition LATParser_parse :: "string \<Rightarrow> lat_val GroupParsed" where
  "LATParser_parse text =
     (let answer = first_group [[Lit ''Final Answer:'']] True [[Lit ''Problem:'']] text;
          cur1 = lat_start
                   (field_finditer [[Lit ''Problem:'']] True
                      [[Lit ''Branches:''], [Lit ''Selection:''], [Lit ''Final Answer:'']] text) [];
          cur2 = lat_attach
                   (field_finditer [[Lit ''Branches:'']] False
                      [[Lit ''Selection:''], [Lit ''Problem:''], [Lit ''Final Answer:'']] text) cur1;
          st = group_close ''selection'' [''problem'', ''branches'']
                   (field_finditer [[Lit ''Selection:'']] True
                      [[Lit ''Problem:''], [Lit ''Branches:''], [Lit ''Final Answer:'']] text)
                   (cur2, []) LStr
      in \<lparr>final_answer = answer, raw_response = text, groups = snd st\<rparr>)"

definition parse_steps :: "string \<Rightarrow> string list" where
  "parse_steps section =
     (if section \<noteq> []
      then map strip (field_finditer [[Lit ''  Step '', Digits, Lit '':'']] True
                        [[Lit ''  Step '', Digits, Lit '':'']] section)
      else [])"

definition RAISEParser_parse :: "string \<Rightarrow> RaiseParsed" where
  "RAISEParser_parse text =
     (let analysis = first_group [[Lit ''Task Analysis:'']] True
                       [[Lit ''Relevant Examples:''], [Lit ''Scratch Pad:''], [Lit ''Final Answer:'']] text;
          examples = first_group [[Lit ''Relevant Examples:'']] True
                       [[Lit ''Scratch Pad:''], [Lit ''Task Analysis:''], [Lit ''Final Answer:'']] text;
          scratch_pad = first_group [[Lit ''Scratch Pad:'']] False
                       [[Lit ''Final Answer:''], [Lit ''Task Analysis:''], [Lit ''Relevant Examples:'']] text;
          answer = first_group [[Lit ''Final Answer:'']] True
                       [[Lit ''Task Analysis:''], [Lit ''Relevant Examples:''], [Lit ''Scratch Pad:'']] text
      in \<lparr>final_answer = answer, raw_response = text, task_analysis = analysis,
          relevant_examples = examples, scratch_pad_raw = scratch_pad,
          scratch_pad_steps = parse_steps scratch_pad\<rparr>)"

definition ReWOOParser_parse :: "string \<Rightarrow> RewooParsed" where
  "ReWOOParser_parse text =
     (let analysis = first_group [[Lit ''Problem Analysis:'']] True
                       [[Lit ''Reasoning:''], [Lit ''Conclusion:''], [Lit ''Final Answer:'']] text;
          reasoning = first_group [[Lit ''Reasoning:'']] False
                       [[Lit ''Conclusion:''], [Lit ''Problem Analysis:''], [Lit ''Final Answer:'']] text;
          concl = first_group [[Lit ''Conclusion:'']] True
                       [[Lit ''Final Answer:''], [Lit ''Problem Analysis:''], [Lit ''Reasoning:'']] text;
          answer = first_group [[Lit ''Final Answer:'']] True
                       [[Lit ''Problem Analysis:''], [Lit ''Reasoning:''], [Lit ''Conclusion:'']] text
      in \<lparr>final_answer = answer, raw_response = text, problem_analysis = analysis,
          reasoning_raw = reasoning, reasoning_steps = parse_steps reasoning, conclusion = concl\<rparr>)"

datatype parsed =
    ReAct_parsed "string GroupParsed"
  | OODA_parsed "string GroupParsed"
  | BDI_parsed "string GroupParsed"
  | LAT_parsed "lat_val GroupParsed"
  | RAISE_parsed RaiseParsed
  | ReWOO_parsed RewooParsed

fun raw_text :: "parsed \<Rightarrow> string" where
  "raw_text (ReAct_parsed p) = raw_response p"
| "raw_text (OODA_parsed p) = raw_response p"
| "raw_text (BDI_parsed p) = raw_response p"
| "raw_text (LAT_parsed p) = raw_response p"
| "raw_text (RAISE_parsed p) = raw_response p"
| "raw_text (ReWOO_parsed p) = raw_response p"

lemmas parse_defs = ReActParser_parse_def OODAParser_parse_def BDIParser_parse_def LATParser_parse_def
  RAISEParser_parse_def ReWOOParser_parse_def parse_steps_def lat_branches_def
  first_group_def field_search_def field_finditer.simps
  has_key_def strip_def lstrip_def rstrip_def is_space_def is_digit_def Let_def

text \<open>\<open>create_parser\<close>: the table of parsers is read at the lower-cased name.\<close>

definition parsers :: "(string \<times> (string \<Rightarrow> parsed)) list" where
  "parsers =
     [(''react'', \<lambda>text. ReAct_parsed (ReActParser_parse text)),
      (''ooda'', \<lambda>text. OODA_parsed (OODAParser_parse text)),
      (''bdi'', \<lambda>text. BDI_parsed (BDIParser_parse text)),
      (''lat'', \<lambda>text. LAT_parsed (LATParser_parse text)),
      (''raise'', \<lambda>text. RAISE_parsed (RAISEParser_parse text)),
      (''rewoo'', \<lambda>text. ReWOO_parsed (ReWOOParser_parse text))]"

definition create_parser :: "string \<Rightarrow> error + (string \<Rightarrow> parsed)" where
  "create_parser architecture =
     (case map_of parsers (lower architecture) of
        None \<Rightarrow> Inl (ValueError (''Unknown architecture: '' @ architecture))
      | Some parser \<Rightarrow> Inr parser)"

definition strategy_tags :: "string set" where
  "strategy_tags = {''react'', ''ooda'', ''bdi'', ''lat'', ''raise'', ''rewoo''}"

lemma parsers_raw: "(k, p) \<in> set parsers \<Longrightarrow> raw_text (p text) = text"
  by (auto simp: parsers_def ReActParser_parse_def OODAParser_parse_def BDIParser_parse_def
        LATParser_parse_def RAISEParser_parse_def ReWOOParser_parse_def Let_def)

lemma parsers_keys: "fst ` set parsers = strategy_tags"
  by (auto simp: parsers_def strategy_tags_def)

text \<open>
  Claim C3. For every strategy tag (in any letter case) and every text, also the empty one
  and one without labels, \<open>create_parser\<close> gives a parser, and the record it returns (the
  parse functions are total: nothing in them raises) has the text itself as raw response.
\<close>

theorem parse_total_raw:
  "lower tag \<in> strategy_tags \<Longrightarrow>
   (\<exists>parser. create_parser tag = Inr parser \<and> raw_text (parser text) = text)"
proof -
  assume "lower tag \<in> strategy_tags"
  then have "lower tag \<in> fst ` set parsers" by (simp add: parsers_keys)
  then obtain p where p: "map_of parsers (lower tag) = Some p"
    by (metis map_of_eq_None_iff not_Some_eq)
  then have "(lower tag, p) \<in> set parsers" by (rule map_of_SomeD)
  then have "raw_text (p text) = text" by (rule parsers_raw)
  then show ?thesis using p by (simp add: create_parser_def)
qed

lemma has_key_update: "has_key k (AList.update k' v d) = (k = k' \<or> has_key k d)"
  by (auto simp: has_key_def update_conv')

definition has_all :: "string list \<Rightarrow> (string \<times> 'a) list \<Rightarrow> bool" where
  "has_all ks g = (\<forall>k \<in> set ks. has_key k g)"

lemma group_close_complete:
  "group_close k needs ms (cur, gs) mk = (cur', gs') \<Longrightarrow> \<forall>g \<in> set gs. has_all (k # needs) g \<Longrightarrow>
   \<forall>g \<in> set gs'. has_all (k # needs) g"
proof (induction ms arbitrary: cur gs)
  case Nil
  then show ?case by simp
next
  case (Cons m ms)
  show ?case
  proof (cases "strip m \<noteq> [] \<and> (\<forall>n \<in> set needs. has_key n cur)")
    case True
    then have r: "group_close k needs ms ([], gs @ [AList.update k (mk (strip m)) cur]) mk = (cur', gs')"
      using Cons.prems(1) by (simp add: Let_def)
    have "has_all (k # needs) (AList.update k (mk (strip m)) cur)"
      using True by (simp add: has_all_def has_key_update)
    then have "\<forall>g \<in> set (gs @ [AList.update k (mk (strip m)) cur]). has_all (k # needs) g"
      using Cons.prems(2) by simp
    from Cons.IH[OF r this] show ?thesis .
  next
    case False
    have r: "group_close k needs ms (cur, gs) mk = (cur', gs')"
      using Cons.prems(1) by (simp only: group_close.simps Let_def if_not_P[OF False])
    from Cons.IH[OF r Cons.prems(2)] show ?thesis .
  qed
qed

lemma group_close_cur:
  "group_close k needs ms (cur, gs) mk = (cur', gs') \<Longrightarrow> cur' = [] \<or> cur' = cur"
proof (induction ms arbitrary: cur gs)
  case Nil
  then show ?case by simp
next
  case (Cons m ms)
  show ?case
  proof (cases "strip m \<noteq> [] \<and> (\<forall>n \<in> set needs. has_key n cur)")
    case True
    then have r: "group_close k needs ms ([], gs @ [AList.update k (mk (strip m)) cur]) mk = (cur', gs')"
      using Cons.prems(1) by (simp add: Let_def)
    from Cons.IH[OF r] show ?thesis by simp
  next
    case False
    have r: "group_close k needs ms (cur, gs) mk = (cur', gs')"
      using Cons.prems(1) by (simp only: group_close.simps Let_def if_not_P[OF False])
    from Cons.IH[OF r] show ?thesis .
  qed
qed

lemma group_close_empty:
  "\<exists>n \<in> set needs. \<not> has_key n cur \<Longrightarrow> group_close k needs ms (cur, gs) mk = (cur, gs)"
  by (induction ms) (auto simp: Let_def)

lemma group_attach_empty:
  "\<exists>n \<in> set needs. \<not> has_key n cur \<Longrightarrow> group_attach k needs ms cur = cur"
  by (induction ms) (auto simp: Let_def)

lemma group_start_keys: "cur = [] \<Longrightarrow> group_start k ms cur = [] \<or> (\<exists>v. group_start k ms cur = [(k, v)])"
proof (induction ms arbitrary: cur)
  case Nil
  then show ?case by simp
next
  case (Cons m ms)
  show ?case
  proof (cases "strip m = []")
    case True
    then show ?thesis using Cons by (simp add: Let_def)
  next
    case False
    have "\<And>c. c = [] \<or> (\<exists>v. c = [(k, v)]) \<Longrightarrow> group_start k ms c = [] \<or> (\<exists>v. group_start k ms c = [(k, v)])"
    proof (induction ms)
      case Nil
      then show ?case by simp
    next
      case (Cons a ms)
      then show ?case by (simp add: Let_def)
    qed
    then show ?thesis using False by (simp add: Let_def)
  qed
qed

lemma group_attach_keys:
  "group_attach k needs ms cur = cur' \<Longrightarrow> has_key j cur' \<Longrightarrow> j = k \<or> has_key j cur"
proof (induction ms arbitrary: cur)
  case Nil
  then show ?case by simp
next
  case (Cons m ms)
  show ?case
  proof (cases "strip m \<noteq> [] \<and> (\<forall>n \<in> set needs. has_key n cur)")
    case True
    then have "group_attach k needs ms (AList.update k (strip m) cur) = cur'"
      using Cons.prems(1) by (simp add: Let_def)
    from Cons.IH[OF this Cons.prems(2)] show ?thesis by (auto simp: has_key_update)
  next
    case False
    have "group_attach k needs ms cur = cur'"
      using Cons.prems(1) by (simp only: group_attach.simps Let_def if_not_P[OF False])
    from Cons.IH[OF this Cons.prems(2)] show ?thesis .
  qed
qed

lemma group_attach_mono:
  "has_key j cur \<Longrightarrow> has_key j (group_attach k needs ms cur)"
  by (induction ms arbitrary: cur) (auto simp: Let_def has_key_update)

lemma starts_with_append: "starts_with l s \<Longrightarrow> \<exists>post. s = l @ post"
  by (induction l s rule: starts_with.induct) auto

lemma search_lit_occurs:
  "search_any [[Lit l]] s = Some r \<Longrightarrow> \<exists>pre post. s = pre @ l @ post"
proof (induction s)
  case Nil
  then have "starts_with l []" by (auto split: if_splits)
  then show ?case using starts_with_append by fastforce
next
  case (Cons c cs)
  show ?case
  proof (cases "starts_with l (c # cs)")
    case True
    then obtain post where "c # cs = l @ post" using starts_with_append by blast
    then have "c # cs = [] @ l @ post" by simp
    then show ?thesis by blast
  next
    case False
    then have "search_any [[Lit l]] cs = Some r" using Cons.prems by simp
    from Cons.IH[OF this] obtain pre post where "cs = pre @ l @ post" by blast
    then have "c # cs = (c # pre) @ l @ post" by simp
    then show ?thesis by blast
  qed
qed

lemma finditer_no_label:
  assumes "\<not> (\<exists>pre post. text = pre @ l @ post)"
  shows "field_finditer [[Lit l]] ws terms text = []"
proof -
  have "search_any [[Lit l]] text = None"
    using assms search_lit_occurs by (metis not_Some_eq)
  then show ?thesis by (simp add: field_finditer.simps field_search_def)
qed

lemma react_groups:
  "\<forall>g \<in> set (groups (ReActParser_parse text)).
      has_key ''thought'' g \<and> (has_key ''observation'' g \<longrightarrow> has_key ''action'' g)"
proof -
  let ?ms1 = "field_finditer [[Lit ''Thought:'']] True
                [[Lit ''Action:''], [Lit ''Observation:''], [Lit ''Final Answer:'']] text"
  let ?ms2 = "field_finditer [[Lit ''Action:'']] True
                [[Lit ''Observation:''], [Lit ''Thought:''], [Lit ''Final Answer:'']] text"
  let ?ms3 = "field_finditer [[Lit ''Observation:'']] True
                [[Lit ''Thought:''], [Lit ''Action:''], [Lit ''Final Answer:'']] text"
  let ?cur1 = "group_start ''thought'' ?ms1 []"
  let ?cur2 = "group_attach ''action'' [''thought''] ?ms2 ?cur1"
  obtain cur3 gs where st: "group_close ''observation'' [''thought'', ''action''] ?ms3 (?cur2, []) id = (cur3, gs)"
    by (cases "group_close ''observation'' [''thought'', ''action''] ?ms3 (?cur2, []) id") auto
  have g: "groups (ReActParser_parse text) = (if cur3 \<noteq> [] \<and> has_key ''thought'' cur3 then gs @ [cur3] else gs)"
    using st by (simp add: ReActParser_parse_def Let_def)
  have closed: "\<forall>g \<in> set gs. has_all [''observation'', ''thought'', ''action''] g"
    using group_close_complete[OF st] by simp
  have c1: "?cur1 = [] \<or> (\<exists>v. ?cur1 = [(''thought'', v)])"
    using group_start_keys[of "[]" "''thought''" ?ms1] by simp
  have no_obs1: "\<not> has_key ''observation'' ?cur1"
    using c1 by (auto simp: has_key_def)
  have no_obs2: "\<not> has_key ''observation'' ?cur2"
    using group_attach_keys[of "''action''" "[''thought'']" ?ms2 ?cur1 ?cur2 "''observation''"] no_obs1
    by auto
  have c3: "cur3 = [] \<or> cur3 = ?cur2" using group_close_cur[OF st] .
  have last: "cur3 \<noteq> [] \<Longrightarrow> \<not> has_key ''observation'' cur3" using c3 no_obs2 by auto
  show ?thesis
  proof
    fix g assume "g \<in> set (groups (ReActParser_parse text))"
    then have "g \<in> set gs \<or> (g = cur3 \<and> cur3 \<noteq> [] \<and> has_key ''thought'' cur3)"
      using g by (auto split: if_splits)
    then show "has_key ''thought'' g \<and> (has_key ''observation'' g \<longrightarrow> has_key ''action'' g)"
    proof
      assume "g \<in> set gs"
      then have "has_all [''observation'', ''thought'', ''action''] g" using closed by blast
      then show ?thesis by (simp add: has_all_def)
    next
      assume "g = cur3 \<and> cur3 \<noteq> [] \<and> has_key ''thought'' cur3"
      then show ?thesis using last by blast
    qed
  qed
qed

lemma react_no_thought:
  assumes "\<not> (\<exists>pre post. text = pre @ ''Thought:'' @ post)"
  shows "groups (ReActParser_parse text) = []"
proof -
  have e: "field_finditer [[Lit ''Thought:'']] True
             [[Lit ''Action:''], [Lit ''Observation:''], [Lit ''Final Answer:'']] text = []"
    using finditer_no_label[OF assms] .
  have nk: "\<exists>n \<in> set [''thought'']. \<not> has_key n ([] :: (string \<times> string) list)"
    by (simp add: has_key_def)
  have nk2: "\<exists>n \<in> set [''thought'', ''action'']. \<not> has_key n ([] :: (string \<times> string) list)"
    by (auto simp: has_key_def)
  show ?thesis
    by (simp add: ReActParser_parse_def Let_def e group_attach_empty[OF nk] group_close_empty[OF nk2])
qed

lemma ooda_groups:
  "\<forall>g \<in> set (groups (OODAParser_parse text)). has_all [''action'', ''observation'', ''orientation'', ''decision''] g"
proof -
  let ?st = "group_close ''action'' [''observation'', ''orientation'', ''decision'']
                   (field_finditer [[Lit ''Action:'']] True
                      [[Lit ''Observation:''], [Lit ''Orientation:''], [Lit ''Decision:''], [Lit ''Final Answer:'']] text)
                   (group_attach ''decision'' [''observation'', ''orientation'']
                   (field_finditer [[Lit ''Decision:'']] True
                      [[Lit ''Action:''], [Lit ''Observation:''], [Lit ''Orientation:''], [Lit ''Final Answer:'']] text) (group_attach ''orientation'' [''observation'']
                   (field_finditer [[Lit ''Orientation:'']] True
                      [[Lit ''Decision:''], [Lit ''Action:''], [Lit ''Observation:''], [Lit ''Final Answer:'']] text) (group_start ''observation''
                   (field_finditer [[Lit ''Observation:'']] True
                      [[Lit ''Orientation:''], [Lit ''Decision:''], [Lit ''Action:''], [Lit ''Final Answer:'']] text) [])), []) id"
  obtain cur gs where st: "?st = (cur, gs)" by (cases ?st) auto
  have "groups (OODAParser_parse text) = gs" using st by (simp add: OODAParser_parse_def Let_def)
  then show ?thesis using group_close_complete[OF st] by simp
qed

lemma bdi_groups:
  "\<forall>g \<in> set (groups (BDIParser_parse text)). has_all [''execution'', ''beliefs'', ''desires'', ''intentions''] g"
proof -
  let ?st = "group_close ''execution'' [''beliefs'', ''desires'', ''intentions'']
                   (field_finditer [[Lit ''Execution:'']] True
                      [[Lit ''Beliefs:''], [Lit ''Desires:''], [Lit ''Intentions:''], [Lit ''Final Answer:'']] text)
                   (group_attach ''intentions'' [''beliefs'', ''desires'']
                   (field_finditer [[Lit ''Intentions:'']] True
                      [[Lit ''Execution:''], [Lit ''Beliefs:''], [Lit ''Desires:''], [Lit ''Final Answer:'']] text) (group_attach ''desires'' [''beliefs'']
                   (field_finditer [[Lit ''Desires:'']] True
                      [[Lit ''Intentions:''], [Lit ''Execution:''], [Lit ''Beliefs:''], [Lit ''Final Answer:'']] text) (group_start ''beliefs''
                   (field_finditer [[Lit ''Beliefs:'']] True
                      [[Lit ''Desires:''], [Lit ''Intentions:''], [Lit ''Execution:''], [Lit ''Final Answer:'']] text) [])), []) id"
  obtain cur gs where st: "?st = (cur, gs)" by (cases ?st) auto
  have "groups (BDIParser_parse text) = gs" using st by (simp add: BDIParser_parse_def Let_def)
  then show ?thesis using group_close_complete[OF st] by simp
qed

lemma lat_groups:
  "\<forall>g \<in> set (groups (LATParser_parse text)). has_all [''selection'', ''problem'', ''branches''] g"
proof -
  let ?st = "group_close ''selection'' [''problem'', ''branches'']
                   (field_finditer [[Lit ''Selection:'']] True
                      [[Lit ''Problem:''], [Lit ''Branches:''], [Lit ''Final Answer:'']] text)
                   (lat_attach
                   (field_finditer [[Lit ''Branches:'']] False
                      [[Lit ''Selection:''], [Lit ''Problem:''], [Lit ''Final Answer:'']] text) (lat_start
                   (field_finditer [[Lit ''Problem:'']] True
                      [[Lit ''Branches:''], [Lit ''Selection:''], [Lit ''Final Answer:'']] text) []), []) LStr"
  obtain cur gs where st: "?st = (cur, gs)" by (cases ?st) auto
  have "groups (LATParser_parse text) = gs" using st by (simp add: LATParser_parse_def Let_def)
  then show ?thesis using group_close_complete[OF st] by simp
qed

text \<open>
  Claim C4, as amended. In every group of the ReAct parser a thought is present, and an
  observation only beside an action; the groups of the OODA, BDI and LAT parsers hold all
  the fields of their grammar. The parsers work in passes, one field kind after the other
  over the whole text, so the order of the labels in the text is not checked: a text with
  no \<open>Thought:\<close> label at all gives no group.
\<close>

theorem groups_respect_grammar:
  "(\<forall>g \<in> set (groups (ReActParser_parse text)).
      has_key ''thought'' g \<and> (has_key ''observation'' g \<longrightarrow> has_key ''action'' g)) \<and>
   (\<forall>g \<in> set (groups (OODAParser_parse text)).
      has_all [''action'', ''observation'', ''orientation'', ''decision''] g) \<and>
   (\<forall>g \<in> set (groups (BDIParser_parse text)).
      has_all [''execution'', ''beliefs'', ''desires'', ''intentions''] g) \<and>
   (\<forall>g \<in> set (groups (LATParser_parse text)).
      has_all [''selection'', ''problem'', ''branches''] g) \<and>
   ((\<not> (\<exists>pre post. text = pre @ ''Thought:'' @ post)) \<longrightarrow> groups (ReActParser_parse text) = [])"
  using react_groups ooda_groups bdi_groups lat_groups react_no_thought by (intro conjI impI) 

theorem groups_respect_grammar_counterexample:
  "groups (ReActParser_parse ''Action: X\<newline>Thought: T'') = [[(''thought'', ''T''), (''action'', ''X'')]]"
  by (simp add: parse_defs)

lemma react_full_cycle:
  "groups (ReActParser_parse ''Thought: compute\<newline>Action: none\<newline>Observation: n/a'') =
     [[(''thought'', ''compute''), (''action'', ''none''), (''observation'', ''n/a'')]]"
  by (simp add: parse_defs)

lemma no_thought_label: "\<not> (\<exists>pre post. ''Action: X'' = pre @ ''Thought:'' @ post)"
proof
  assume "\<exists>pre post. ''Action: X'' = pre @ ''Thought:'' @ post"
  then obtain pre post where "''Action: X'' = pre @ ''Thought:'' @ post" by blast
  then have "set ''Action: X'' = set (pre @ ''Thought:'' @ post)" by simp
  then have "CHR ''T'' \<in> set ''Action: X''" by simp
  then show False by simp
qed

theorem groups_respect_grammar_witness:
  "[(''thought'', ''compute''), (''action'', ''none''), (''observation'', ''n/a'')]
     \<in> set (groups (ReActParser_parse ''Thought: compute\<newline>Action: none\<newline>Observation: n/a'')) \<and>
   has_key ''thought'' [(''thought'', ''compute''), (''action'', ''none''), (''observation'', ''n/a'')] \<and>
   has_key ''observation'' [(''thought'', ''compute''), (''action'', ''none''), (''observation'', ''n/a'')] \<and>
   has_key ''action'' [(''thought'', ''compute''), (''action'', ''none''), (''observation'', ''n/a'')] \<and>
   \<not> (\<exists>pre post. ''Action: X'' = pre @ ''Thought:'' @ post) \<and>
   groups (ReActParser_parse ''Action: X'') = []"
proof -
  let ?g = "[(''thought'', ''compute''), (''action'', ''none''), (''observation'', ''n/a'')]"
  have m: "?g \<in> set (groups (ReActParser_parse ''Thought: compute\<newline>Action: none\<newline>Observation: n/a''))"
    by (simp add: react_full_cycle)
  note t = groups_respect_grammar[of "''Thought: compute\<newline>Action: none\<newline>Observation: n/a''"]
  have k: "has_key ''thought'' ?g \<and> (has_key ''observation'' ?g \<longrightarrow> has_key ''action'' ?g)"
    using t[THEN conjunct1] m by blast
  have o: "has_key ''observation'' ?g" by (simp add: has_key_def)
  note u = groups_respect_grammar[of "''Action: X''", THEN conjunct2, THEN conjunct2, THEN conjunct2,
      THEN conjunct2, rule_format, OF no_thought_label]
  show ?thesis using m k o u no_thought_label by (intro conjI) simp_all
qed

theorem parse_total_raw_witness:
  "lower ''ReAct'' \<in> strategy_tags \<and>
   (\<exists>parser. create_parser ''ReAct'' = Inr parser \<and> raw_text (parser '''') = '''')"
proof -
  have h: "lower ''ReAct'' \<in> strategy_tags" by (simp add: lower_def strategy_tags_def)
  from parse_total_raw[OF h, of "''''"] h show ?thesis by simp
qed

lemma create_parser_unknown:
  "create_parser ''plan'' = Inl (ValueError ''Unknown architecture: plan'')"
  by (simp add: create_parser_def parsers_def lower_def)

section \<open>The cycle controllers (agents/base.py, react.py, ooda.py, bdi.py, lat.py)\<close>

text \<open>
  The agents call three things outside the program: the model gateway
  (\<open>llm_client.generate\<close>), the tools, and library functions (\<open>json\<close>, \<open>re\<close> on the
  patterns that find a tool call, \<open>textwrap\<close>). A call of the gateway or of a tool reads
  and changes a world \<open>'g\<close>, which is threaded through every function that makes such a
  call. A computation that may raise is an \<open>act\<close>: from a world it gives an error or a
  value, and the next world. \<open>and_then\<close> is sequencing (an error ends the computation, as
  an exception that nothing catches does) and \<open>give\<close> returns a value.

  Left out of the model, because nothing that is modelled reads it: the \<open>AgentState\<close>
  record that \<open>_update_state\<close> writes (and the \<open>final_state\<close> field of the result, a
  reference to it), the log lines of verbose mode, the \<open>memory\<close> argument, and the extra
  keys that a caller passes in \<open>kwargs["context"]\<close>, which are stored in the context
  under keys that no prompt reads.
\<close>

subsection \<open>Strings\<close>


fun contains :: "string \<Rightarrow> string \<Rightarrow> bool" where
  "contains sub [] = (sub = [])"
| "contains sub (c # cs) = (starts_with sub (c # cs) \<or> contains sub cs)"

fun find_ci :: "string \<Rightarrow> string \<Rightarrow> string option" where
  "find_ci lit [] = (if lit = [] then Some [] else None)"
| "find_ci lit (c # cs) =
     (if starts_with lit (lower (take (length lit) (c # cs)))
      then Some (drop (length lit) (c # cs)) else find_ci lit cs)"

subsection \<open>The gateway, the tools and the library\<close>

text \<open>
  \<open>generate\<close> is \<open>llm_client.generate(system_prompt, user_prompt, temperature,
  max_tokens)\<close>. It returns the pair of the thinking and the response, of which the agents
  use the response, or raises (\<open>Inl\<close> with the message). The temperature is a Python
  float; the model passes it on and never computes with it.
\<close>

datatype agent_error = GatewayError string | AttributeError string

type_synonym ('a, 'g) act = "'g \<Rightarrow> (agent_error + 'a) \<times> 'g"

definition and_then :: "('a, 'g) act \<Rightarrow> ('a \<Rightarrow> ('b, 'g) act) \<Rightarrow> ('b, 'g) act" where
  "and_then m f = (\<lambda>g. case m g of (Inl e, g') \<Rightarrow> (Inl e, g') | (Inr x, g') \<Rightarrow> f x g')"

definition give :: "'a \<Rightarrow> ('a, 'g) act" where
  "give x = (\<lambda>g. (Inr x, g))"

type_synonym 'g llm = "string \<Rightarrow> string \<Rightarrow> real \<Rightarrow> int \<Rightarrow> 'g \<Rightarrow> (string + string \<times> string) \<times> 'g"

definition generate :: "'g llm \<Rightarrow> string \<Rightarrow> string \<Rightarrow> real \<Rightarrow> int \<Rightarrow> (string, 'g) act" where
  "generate client sys usr temp toks =
     (\<lambda>g. case client sys usr temp toks g of
            (Inl msg, g') \<Rightarrow> (Inl (GatewayError msg), g')
          | (Inr (thinking, response), g') \<Rightarrow> (Inr response, g'))"

text \<open>
  \<open>tool_execute\<close> is \<open>Tool.execute\<close>: the validation of the parameters by the pydantic
  model of the tool and the call of its function. \<open>Inl\<close> is an exception of class
  \<open>Exception\<close>, with its message \<open>str(e)\<close>. The parameters are \<open>{"query": text}\<close> or the
  object that \<open>json.loads\<close> decodes.

  The library: \<open>json.loads\<close> (\<open>None\<close> is \<open>JSONDecodeError\<close>), \<open>json.dumps\<close> with
  \<open>indent=2\<close> (\<open>Inl\<close> is the exception it raises on a value it cannot write), and the
  three patterns that find a tool call in a text, each applied with \<open>re.search\<close> under
  \<open>re.IGNORECASE\<close> and giving the groups of the match:
  \<open>re_use_tool\<close> is \<open>use (\w+)(?::|,|\s+with)?\s+(.*)\<close>,
  \<open>re_search_for\<close> is \<open>search(?::|,|\s+for)?\s+(.*)\<close>, and
  \<open>re_tool_usage\<close> is \<open>(?:use\s+)?(\w+)(?::|,|\s+with|,?\s+)?\s+(.*)\<close>.
  These patterns backtrack, unlike those of the parsers; they are parameters of the
  model, and the properties below hold for whatever they match.
\<close>

datatype 'j params = Query string | JsonObject 'j

record ('j, 'r, 'g) Tool =
  tool_name :: string
  tool_description :: string
  tool_execute :: "'j params \<Rightarrow> 'g \<Rightarrow> (string + 'r) \<times> 'g"

record ('j, 'r) Library =
  json_loads :: "string \<Rightarrow> 'j option"
  json_dumps :: "'r \<Rightarrow> string + string"
  re_use_tool :: "string \<Rightarrow> (string \<times> string) option"
  re_search_for :: "string \<Rightarrow> string option"
  re_tool_usage :: "string \<Rightarrow> (string \<times> string) option"

text \<open>
  An agent. \<open>system_prompt\<close> is the text that \<open>get_prompt_for_architecture\<close> builds at
  every stage from the name, the description and the tool names of the agent: a
  \<open>Template.safe_substitute\<close>, which never raises, of arguments that do not change
  during a run. \<open>max_iterations\<close> is \<open>kwargs.get("max_iterations", 10)\<close>.
\<close>

record AgentConfig =
  cfg_name :: string
  cfg_description :: string
  cfg_temperature :: real
  cfg_max_tokens :: int
  cfg_verbose :: bool

record ('j, 'r, 'g) Agent =
  agent_uid :: string
  config :: AgentConfig
  tools :: "('j, 'r, 'g) Tool list"
  llm_client :: "'g llm"
  library :: "('j, 'r) Library"
  system_prompt :: string
  max_iterations :: int

text \<open>
  The context dict of a run: the task, the lists of past values by key (\<open>history\<close>), the
  tool names and the dict of the tool descriptions in insertion order. A step of the
  trace has a type and a content; a ReAct action step also has an observation and a LAT
  search step a depth. The metadata of a result maps a key to a string or a number.
\<close>

record Context =
  task :: string
  history :: "string \<Rightarrow> string list"
  available_tools :: "string list"
  tool_descriptions :: "(string \<times> string) list"

record Step =
  step_type :: string
  step_content :: string
  step_observation :: "string option"
  step_depth :: "nat option"

datatype meta = MStr string | MInt int

record AgentResult =
  result_agent_id :: string
  final_output :: string
  intermediate_steps :: "Step list"
  metadata :: "(string \<times> meta) list"

definition plain_step :: "string \<Rightarrow> string \<Rightarrow> Step" where
  "plain_step ty c = \<lparr>step_type = ty, step_content = c, step_observation = None, step_depth = None\<rparr>"

definition append_to :: "string \<Rightarrow> string \<Rightarrow> Context \<Rightarrow> Context" where
  "append_to k v c = c\<lparr>history := (history c)(k := history c k @ [v])\<rparr>"

definition initial_context :: "('j, 'r, 'g, 'z) Agent_scheme \<Rightarrow> string \<Rightarrow> Context" where
  "initial_context agent t =
     \<lparr>task = t, history = (\<lambda>k. []),
      available_tools = map tool_name (tools agent),
      tool_descriptions = fold (\<lambda>tool d. AList.update (tool_name tool) (tool_description tool) d) (tools agent) []\<rparr>"

text \<open>
  The case-insensitive lookup of a tool: the first tool whose lower-cased name is \<open>nm\<close>
  (\<open>next((t for t in self.tools if t.name.lower() == nm), None)\<close>). A \<open>Tool\<close> is a plain
  object, so the test \<open>if tool:\<close> is the test for \<open>None\<close>.
\<close>

definition find_tool :: "('j, 'r, 'g) Tool list \<Rightarrow> string \<Rightarrow> ('j, 'r, 'g) Tool option" where
  "find_tool ts nm = find (\<lambda>t. lower (tool_name t) = nm) ts"

definition not_completed :: string where
  "not_completed = ''Task not completed within maximum iterations. ''"

subsection \<open>ReAct\<close>

text \<open>
  \<open>ReActAgent._execute_action\<close>. The whole body is under \<open>try ... except Exception\<close>, so
  an exception of the tool or of \<open>json.dumps\<close> becomes the returned text; the inner \<open>try\<close>
  turns a \<open>JSONDecodeError\<close> into the single parameter \<open>query\<close>.
\<close>

definition quoted :: "string \<Rightarrow> string" where
  "quoted s = [CHR 0x27] @ s @ [CHR 0x27]"




fun description_lines :: "(string \<times> string) list \<Rightarrow> string" where
  "description_lines [] = []"
| "description_lines ((tn, d) # ds) = ''- '' @ tn @ '': '' @ d @ [CHR 0x0A] @ description_lines ds"









text \<open>
  The state of the loop of \<open>execute\<close>, one iteration of it, and the loop
  \<open>while not is_done and iterations < self.max_iterations\<close>. The loop ends because
  every iteration adds one to \<open>iterations\<close>.
\<close>

record LoopState =
  ctx :: Context
  iterations :: nat
  is_done :: bool
  answer :: string
  steps :: "Step list"







definition initial_state :: "('j, 'r, 'g) Agent \<Rightarrow> string \<Rightarrow> LoopState" where
  "initial_state agent t =
     \<lparr>ctx = initial_context agent t, iterations = 0, is_done = False, answer = [], steps = []\<rparr>"

definition loop_result :: "('j, 'r, 'g) Agent \<Rightarrow> string \<Rightarrow> LoopState \<Rightarrow> string \<Rightarrow> AgentResult" where
  "loop_result agent arch s out =
     \<lparr>result_agent_id = agent_uid agent, final_output = out, intermediate_steps = steps s,
      metadata = [(''architecture'', MStr arch), (''iterations'', MInt (int (iterations s)))]\<rparr>"


subsection \<open>The completion check\<close>

text \<open>
  \<open>_check_completion\<close> of the OODA and BDI agents reads the response in the same way:
  \<open>is_complete\<close> is \<open>"yes" in response.lower()[:100] or "complete" in
  response.lower()[:100]\<close>; the answer is \<open>response.strip()\<close>, replaced when complete by
  the stripped group of \<open>re.search(r"final answer:?(.*)", ...)\<close> under \<open>re.IGNORECASE\<close>
  and \<open>re.DOTALL\<close>: the text after the first marker, less one colon that directly
  follows it. \<open>latest\<close> is the part of a prompt that shows the last value of a key.
\<close>

definition drop_colon :: "string \<Rightarrow> string" where
  "drop_colon r = (case r of [] \<Rightarrow> [] | c # r' \<Rightarrow> if c = CHR '':'' then r' else c # r')"

definition final_answer_match :: "string \<Rightarrow> string option" where
  "final_answer_match s = map_option drop_colon (find_ci ''final answer'' s)"

definition completion_of :: "string \<Rightarrow> bool \<times> string" where
  "completion_of response =
     (let is_complete = (contains ''yes'' (take 100 (lower response))
                         \<or> contains ''complete'' (take 100 (lower response)));
          stripped = strip response
      in (is_complete,
          if is_complete
          then (case final_answer_match stripped of
                  Some g \<Rightarrow> strip g
                | None \<Rightarrow> stripped)
          else stripped))"

definition latest :: "string \<Rightarrow> string \<Rightarrow> Context \<Rightarrow> string" where
  "latest title k c =
     (if history c k \<noteq> [] then title @ [CHR 0x0A] @ last (history c k) @ [CHR 0x0A, CHR 0x0A] else [])"



subsection \<open>OODA\<close>

text \<open>
  \<open>_extract_content\<close>: the value of the stage in the first loop of the parser that has
  it, else the stripped group of the fallback pattern of the stage, else the whole
  response. The fallback patterns have the shape of the parser patterns.
\<close>

definition first_with :: "string \<Rightarrow> (string \<times> string) list list \<Rightarrow> string" where
  "first_with k gs = (case find (has_key k) gs of None \<Rightarrow> [] | Some g \<Rightarrow> the (map_of g k))"









definition record_stage :: "string \<Rightarrow> string \<Rightarrow> string \<Rightarrow> LoopState \<Rightarrow> LoopState" where
  "record_stage k ty v s =
     s\<lparr>ctx := append_to k v (ctx s), steps := steps s @ [plain_step ty v]\<rparr>"







subsection \<open>BDI\<close>

text \<open>
  \<open>_extract_section\<close> differs from the OODA extraction in one branch: when the fallback
  pattern of a known section does not match, the raw response is the content.
  \<open>_generate_partial_answer\<close> puts the not-completed notice before the response itself.
\<close>

definition bdi_fallback :: "string \<Rightarrow> string \<Rightarrow> string option option" where
  "bdi_fallback section_type raw =
     (if section_type = ''beliefs''
      then Some (map_option (strip \<circ> fst)
             (field_search [[Lit ''Beliefs:''], [Lit ''Belief:'']] True
                [[Lit ''Desire''], [Lit ''Intention''], [Lit ''Action'']] raw))
      else if section_type = ''desires''
      then Some (map_option (strip \<circ> fst)
             (field_search [[Lit ''Desires:''], [Lit ''Desire:'']] True
                [[Lit ''Intention''], [Lit ''Action'']] raw))
      else if section_type = ''intentions''
      then Some (map_option (strip \<circ> fst)
             (field_search [[Lit ''Intentions:''], [Lit ''Intention:'']] True
                [[Lit ''Act''], [Lit ''Execution'']] raw))
      else if section_type = ''actions''
      then Some (map_option (strip \<circ> fst)
             (field_search [[Lit ''Actions:''], [Lit ''Action:'']] True [] raw))
      else None)"

definition bdi_extract_section :: "string \<Rightarrow> string \<Rightarrow> string" where
  "bdi_extract_section response section_type =
     (let parsed = BDIParser_parse response;
          content1 = first_with section_type (groups parsed);
          content2 = (if content1 = []
                      then (case bdi_fallback section_type (raw_response parsed) of
                              None \<Rightarrow> content1
                            | Some None \<Rightarrow> raw_response parsed
                            | Some (Some c) \<Rightarrow> c)
                      else content1)
      in if content2 = [] then response else content2)"

definition bdi_stage ::
  "('j, 'r, 'g) Agent \<Rightarrow> Context \<Rightarrow> string \<Rightarrow> string \<Rightarrow> (string, 'g) act" where
  "bdi_stage agent c body section_type =
     and_then (generate (llm_client agent) (system_prompt agent)
                 (''Task: '' @ task c @ [CHR 0x0A, CHR 0x0A] @ body)
                 (cfg_temperature (config agent)) (cfg_max_tokens (config agent)))
       (\<lambda>response. give (bdi_extract_section response section_type))"

definition bdi_update_beliefs :: "('j, 'r, 'g) Agent \<Rightarrow> Context \<Rightarrow> (string, 'g) act" where
  "bdi_update_beliefs agent c =
     bdi_stage agent c
       (latest ''Previous beliefs:'' ''beliefs'' c
        @ latest ''Recent action results:'' ''actions_results'' c
        @ ''Update your beliefs based on the task and previous information. What do you know or believe about the current situation?'')
       ''beliefs''"

definition bdi_generate_desires :: "('j, 'r, 'g) Agent \<Rightarrow> Context \<Rightarrow> (string, 'g) act" where
  "bdi_generate_desires agent c =
     bdi_stage agent c
       (latest ''Current beliefs:'' ''beliefs'' c
        @ ''Based on your current beliefs and the task, generate desires (goals). What do you want to achieve?'')
       ''desires''"

definition bdi_filter_to_intentions :: "('j, 'r, 'g) Agent \<Rightarrow> Context \<Rightarrow> (string, 'g) act" where
  "bdi_filter_to_intentions agent c =
     bdi_stage agent c
       (latest ''Current beliefs:'' ''beliefs'' c
        @ latest ''Current desires:'' ''desires'' c
        @ ''Based on your beliefs and desires, what specific intentions do you commit to?'')
       ''intentions''"

definition bdi_select_actions :: "('j, 'r, 'g) Agent \<Rightarrow> Context \<Rightarrow> (string, 'g) act" where
  "bdi_select_actions agent c =
     bdi_stage agent c
       (latest ''Current beliefs:'' ''beliefs'' c
        @ latest ''Current intentions:'' ''intentions'' c
        @ ''Available tools:'' @ [CHR 0x0A] @ description_lines (tool_descriptions c)
        @ [CHR 0x0A] @ ''Based on your intentions, which tool will you use and with what parameters?'')
       ''actions''"

definition bdi_execute_actions :: "('j, 'r, 'g) Agent \<Rightarrow> Context \<Rightarrow> 'g \<Rightarrow> string \<times> 'g" where
  "bdi_execute_actions agent c g =
     (let acts = (if history c ''selected_actions'' \<noteq> [] then last (history c ''selected_actions'') else [])
      in case re_tool_usage (library agent) acts of
           Some (g1, g2) \<Rightarrow>
             (let tname = lower (strip g1);
                  parameter = strip g2
              in case find_tool (tools agent) tname of
                   Some tool \<Rightarrow>
                     (case tool_execute tool (Query parameter) g of
                        (Inl msg, g') \<Rightarrow> (''Error executing tool '' @ tool_name tool @ '': '' @ msg, g')
                      | (Inr result, g') \<Rightarrow>
                          (case json_dumps (library agent) result of
                             Inl msg \<Rightarrow> (''Error executing tool '' @ tool_name tool @ '': '' @ msg, g')
                           | Inr text \<Rightarrow>
                               (''Action result: Used '' @ tool_name tool @ '' with parameter ''
                                  @ quoted parameter @ '' and got: '' @ text, g')))
                 | None \<Rightarrow> (''Could not find tool '' @ quoted tname @ ''.'', g))
         | None \<Rightarrow> (''Actions performed: '' @ acts @ '' (no specific tool used)'', g))"

definition bdi_check_completion :: "('j, 'r, 'g) Agent \<Rightarrow> Context \<Rightarrow> (bool \<times> string, 'g) act" where
  "bdi_check_completion agent c =
     and_then (generate (llm_client agent)
                 ''Determine if the agent has completed its task.''
                 (''Task: '' @ task c @ [CHR 0x0A, CHR 0x0A]
                  @ latest ''Current beliefs:'' ''beliefs'' c
                  @ latest ''Latest action results:'' ''actions_results'' c
                  @ ''Has the task been completed? If yes, provide a final answer.'')
                 0.5 500)
       (\<lambda>response. give (completion_of response))"

definition bdi_generate_partial_answer :: "('j, 'r, 'g) Agent \<Rightarrow> Context \<Rightarrow> (string, 'g) act" where
  "bdi_generate_partial_answer agent c =
     and_then (generate (llm_client agent)
                 ''Provide a partial answer based on information gathered so far.''
                 (''Task: '' @ task c @ [CHR 0x0A, CHR 0x0A]
                  @ latest ''Current beliefs:'' ''beliefs'' c
                  @ latest ''Latest action results:'' ''actions_results'' c
                  @ ''Please provide a partial answer based on the information gathered so far.'')
                 0.7 500)
       (\<lambda>response. give (not_completed @ response))"

definition bdi_iteration :: "('j, 'r, 'g) Agent \<Rightarrow> LoopState \<Rightarrow> (LoopState, 'g) act" where
  "bdi_iteration agent s0 =
     (let s = s0\<lparr>iterations := Suc (iterations s0)\<rparr>
      in and_then (bdi_update_beliefs agent (ctx s))
        (\<lambda>beliefs. let s1 = record_stage ''beliefs'' ''beliefs'' beliefs s in
         and_then (bdi_generate_desires agent (ctx s1))
        (\<lambda>desires. let s2 = record_stage ''desires'' ''desires'' desires s1 in
         and_then (bdi_filter_to_intentions agent (ctx s2))
        (\<lambda>intentions. let s3 = record_stage ''intentions'' ''intentions'' intentions s2 in
         and_then (bdi_select_actions agent (ctx s3))
        (\<lambda>acts g. let s4 = record_stage ''selected_actions'' ''actions'' acts s3 in
           case bdi_execute_actions agent (ctx s4) g of
             (action_results, g') \<Rightarrow>
               (let s5 = record_stage ''actions_results'' ''results'' action_results s4
                in and_then (bdi_check_completion agent (ctx s5))
                     (\<lambda>(d, a). give (s5\<lparr>is_done := d, answer := a\<rparr>)) g'))))))"

function bdi_loop :: "('j, 'r, 'g) Agent \<Rightarrow> LoopState \<Rightarrow> (LoopState, 'g) act" where
  "bdi_loop agent s g =
     (if \<not> is_done s \<and> int (iterations s) < max_iterations agent
      then (case bdi_iteration agent s g of
              (Inl e, g') \<Rightarrow> (Inl e, g')
            | (Inr s', g') \<Rightarrow> bdi_loop agent s' g')
      else (Inr s, g))"
  by pat_completeness auto

lemma bdi_iteration_counts:
  "bdi_iteration agent s g = (Inr s', g') \<Longrightarrow> iterations s' = Suc (iterations s)"
  by (auto simp: bdi_iteration_def and_then_def give_def record_stage_def Let_def
           split: prod.splits sum.splits)

termination bdi_loop
  by (relation "measure (\<lambda>(agent, s, g). nat (max_iterations agent - int (iterations s)))")
     (auto dest!: bdi_iteration_counts[OF sym])

declare bdi_loop.simps [simp del]

definition bdi_execute :: "('j, 'r, 'g) Agent \<Rightarrow> string \<Rightarrow> (AgentResult, 'g) act" where
  "bdi_execute agent t =
     and_then (bdi_loop agent (initial_state agent t))
       (\<lambda>s. if \<not> is_done s
            then and_then (bdi_generate_partial_answer agent (ctx s))
                   (\<lambda>partial. give (loop_result agent ''bdi'' s partial))
            else give (loop_result agent ''bdi'' s (answer s)))"

subsection \<open>Printing numbers\<close>





subsection \<open>LAT\<close>

text \<open>
  The LAT agent does not read \<open>max_iterations\<close>; its budget is \<open>max_depth\<close>. The
  loop \<open>while current_depth < self.max_depth\<close> ends at a node that the gateway calls
  terminal, or at the budget; in both cases \<open>execute\<close> goes on to the selection of the
  best path and the generation of the output. The entries \<open>decision_tree\<close>,
  \<open>selected_node\<close>, \<open>simulation_results\<close>, \<open>reflection\<close> and \<open>best_path\<close> that \<open>execute\<close>
  writes to the context are read by no prompt (the tree is passed on as an argument).
\<close>

record ('j, 'r, 'g) LATAgent = "('j, 'r, 'g) Agent" +
  max_depth :: int
  max_branches :: int
  search_strategy :: string

















subsection \<open>The entry point\<close>








subsection \<open>Gateways and agents for the examples\<close>











subsection \<open>The notions the properties are stated with\<close>


definition gateway_total :: "'g llm \<Rightarrow> bool" where
  "gateway_total client =
     (\<forall>sys usr temp toks g. \<exists>thinking response g'.
         client sys usr temp toks g = (Inr (thinking, response), g'))"




subsection \<open>Facts on strings\<close>



lemma lower_append: "lower (a @ b) = lower a @ lower b"
  by (simp add: lower_def)





subsection \<open>The completion check, proved\<close>
























subsection \<open>Runs return when the gateway does\<close>


lemma generate_total:
  assumes "gateway_total client"
  shows "\<exists>r g'. generate client sys usr temp toks g = (Inr r, g')"
proof -
  from assms obtain thinking response g' where
    "client sys usr temp toks g = (Inr (thinking, response), g')"
    unfolding gateway_total_def by blast
  then show ?thesis by (simp add: generate_def)
qed







lemma iterations_record_stage: "iterations (record_stage k ty v s) = iterations s"
  by (simp add: record_stage_def)










lemma bdi_stage_total:
  assumes "gateway_total (llm_client agent)"
  shows "\<exists>v g'. bdi_stage agent c body section_type g = (Inr v, g')"
proof -
  obtain r g1 where "generate (llm_client agent) (system_prompt agent)
      (''Task: '' @ task c @ [CHR 0x0A, CHR 0x0A] @ body)
      (cfg_temperature (config agent)) (cfg_max_tokens (config agent)) g = (Inr r, g1)"
    using generate_total[OF assms] by blast
  then show ?thesis by (simp add: bdi_stage_def and_then_def give_def)
qed

lemma bdi_check_total:
  assumes "gateway_total (llm_client agent)"
  shows "\<exists>d a g'. bdi_check_completion agent c g = (Inr (d, a), g')"
proof -
  obtain r g1 where "generate (llm_client agent)
                 ''Determine if the agent has completed its task.''
                 (''Task: '' @ task c @ [CHR 0x0A, CHR 0x0A]
                  @ latest ''Current beliefs:'' ''beliefs'' c
                  @ latest ''Latest action results:'' ''actions_results'' c
                  @ ''Has the task been completed? If yes, provide a final answer.'')
                 0.5 500 g = (Inr r, g1)"
    using generate_total[OF assms] by blast
  then have "bdi_check_completion agent c g = (Inr (completion_of r), g1)"
    by (simp add: bdi_check_completion_def and_then_def give_def)
  then show ?thesis by (metis surj_pair)
qed


lemma bdi_iteration_shape:
  assumes t: "gateway_total (llm_client agent)"
  shows "\<exists>s5 g5. iterations s5 = Suc (iterations s0) \<and>
           bdi_iteration agent s0 g
             = and_then (bdi_check_completion agent (ctx s5))
                 (\<lambda>(d, a). give (s5\<lparr>is_done := d, answer := a\<rparr>)) g5"
proof -
  let ?s = "s0\<lparr>iterations := Suc (iterations s0)\<rparr>"
  obtain v1 g1 where e1: "bdi_update_beliefs agent (ctx s0) g = (Inr v1, g1)"
    unfolding bdi_update_beliefs_def using bdi_stage_total[OF t] by blast
  let ?s1 = "record_stage ''beliefs'' ''beliefs'' v1 ?s"
  obtain v2 g2 where e2: "bdi_generate_desires agent (ctx ?s1) g1 = (Inr v2, g2)"
    unfolding bdi_generate_desires_def using bdi_stage_total[OF t] by blast
  let ?s2 = "record_stage ''desires'' ''desires'' v2 ?s1"
  obtain v3 g3 where e3: "bdi_filter_to_intentions agent (ctx ?s2) g2 = (Inr v3, g3)"
    unfolding bdi_filter_to_intentions_def using bdi_stage_total[OF t] by blast
  let ?s3 = "record_stage ''intentions'' ''intentions'' v3 ?s2"
  obtain v4 g4 where e4: "bdi_select_actions agent (ctx ?s3) g3 = (Inr v4, g4)"
    unfolding bdi_select_actions_def using bdi_stage_total[OF t] by blast
  let ?s4 = "record_stage ''selected_actions'' ''actions'' v4 ?s3"
  obtain ar g5 where e5: "bdi_execute_actions agent (ctx ?s4) g4 = (ar, g5)" by (metis surj_pair)
  let ?s5 = "record_stage ''actions_results'' ''results'' ar ?s4"
  have "bdi_iteration agent s0 g
             = and_then (bdi_check_completion agent (ctx ?s5))
                 (\<lambda>(d, a). give (?s5\<lparr>is_done := d, answer := a\<rparr>)) g5"
    unfolding bdi_iteration_def Let_def
    by (simp add: and_then_def e1 e2 e3 e4 e5)
  moreover have "iterations ?s5 = Suc (iterations s0)" by (simp add: iterations_record_stage)
  ultimately show ?thesis by blast
qed

lemma bdi_iteration_total:
  assumes t: "gateway_total (llm_client agent)"
  shows "\<exists>s' g'. bdi_iteration agent s0 g = (Inr s', g')"
proof -
  obtain s5 g5 where e: "bdi_iteration agent s0 g
             = and_then (bdi_check_completion agent (ctx s5))
                 (\<lambda>(d, a). give (s5\<lparr>is_done := d, answer := a\<rparr>)) g5"
    using bdi_iteration_shape[OF t] by blast
  obtain d a g6 where "bdi_check_completion agent (ctx s5) g5 = (Inr (d, a), g6)"
    using bdi_check_total[OF t] by blast
  then show ?thesis unfolding e by (simp add: and_then_def give_def)
qed


lemma bdi_loop_total:
  "gateway_total (llm_client agent) \<Longrightarrow> \<exists>s' g'. bdi_loop agent s g = (Inr s', g')"
proof (induction agent s g rule: bdi_loop.induct)
  case (1 agent s g)
  show ?case
  proof (cases "\<not> is_done s \<and> int (iterations s) < max_iterations agent")
    case True
    obtain s1 g1 where i: "bdi_iteration agent s g = (Inr s1, g1)"
      using bdi_iteration_total[OF "1.prems"] by blast
    from "1.IH"[OF True i[symmetric] refl "1.prems"] obtain s' g' where
      "bdi_loop agent s1 g1 = (Inr s', g')" by blast
    then show ?thesis by (subst bdi_loop.simps) (simp add: True i)
  next
    case False
    have "bdi_loop agent s g = (Inr s, g)"
      by (subst bdi_loop.simps) (simp only: False if_False)
    then show ?thesis by blast
  qed
qed

lemma bdi_execute_total:
  assumes "gateway_total (llm_client agent)"
  shows "\<exists>res g'. bdi_execute agent t g = (Inr res, g')"
proof -
  obtain s g1 where l: "bdi_loop agent (initial_state agent t) g = (Inr s, g1)"
    using bdi_loop_total[OF assms] by blast
  obtain r g2 where "generate (llm_client agent)
                 ''Provide a partial answer based on information gathered so far.''
                 (''Task: '' @ task (ctx s) @ [CHR 0x0A, CHR 0x0A]
                  @ latest ''Current beliefs:'' ''beliefs'' (ctx s)
                  @ latest ''Latest action results:'' ''actions_results'' (ctx s)
                  @ ''Please provide a partial answer based on the information gathered so far.'')
                 0.7 500 g1 = (Inr r, g2)"
    using generate_total[OF assms] by blast
  then have p: "bdi_generate_partial_answer agent (ctx s) g1 = (Inr (not_completed @ r), g2)"
    by (simp add: bdi_generate_partial_answer_def and_then_def give_def)
  show ?thesis
    by (cases "is_done s") (simp_all add: bdi_execute_def and_then_def l p give_def)
qed


subsection \<open>A budget of one iteration\<close>









subsection \<open>Tool errors\<close>









subsection \<open>The entry point, proved\<close>
















end
